theory Spec2Isabelle
  imports Complex_Main
begin

section \<open>Bytes and strings\<close>

text \<open>
  The proxy of \<^verbatim>\<open>main.ts\<close> works on two kinds of text. What travels on
  the sockets is a \<^verbatim>\<open>Uint8Array\<close>: a list of bytes, here a list of
  \<^typ>\<open>char\<close> (a HOL character is one byte). What the program computes with
  after \<^verbatim>\<open>decoder.decode\<close> is a JavaScript string. A JavaScript string is
  modelled by the list of its Unicode code points (natural numbers); the operations
  the program applies to strings (\<^verbatim>\<open>trim\<close>, \<^verbatim>\<open>split(" ")\<close>,
  \<^verbatim>\<open>includes\<close>, \<^verbatim>\<open>===\<close>, template literals, \<^verbatim>\<open>Number\<close>)
  give the same answers on code points as on UTF-16 code units.
\<close>

type_synonym bytes = "char list"

type_synonym jsstring = "nat list"

text \<open>A string literal of the source (all literals of \<^verbatim>\<open>main.ts\<close> are ASCII).\<close>

definition js :: "string \<Rightarrow> jsstring" where
  "js s = map of_char s"

definition CRLF :: bytes where
  "CRLF = [CHR 0x0D, CHR 0x0A]"

subsection \<open>\<^verbatim>\<open>TextDecoder\<close> and \<^verbatim>\<open>TextEncoder\<close>\<close>

text \<open>
  \<^verbatim>\<open>const decoder = new TextDecoder()\<close> is the platform's UTF-8 decoder with
  replacement: every maximal ill-formed part of the input becomes one U+FFFD, and the
  byte that broke a sequence is read again as the start of the next one. The model
  follows the decoder of the Encoding Standard on the values of the bytes.
  \<open>utf8_sequence b bs\<close> reads the sequence that starts with the byte \<open>b\<close>
  and goes on in \<open>bs\<close>: it gives the code point and how many bytes of \<open>bs\<close>
  it has used. The masks of the standard, \<^verbatim>\<open>byte & 0x1F\<close> and the like, are
  written with \<open>mod\<close>.
\<close>

definition continuation :: "nat \<Rightarrow> nat \<Rightarrow> nat \<Rightarrow> bool" where
  "continuation lower upper b \<longleftrightarrow> lower \<le> b \<and> b \<le> upper"

definition utf8_sequence :: "nat \<Rightarrow> nat list \<Rightarrow> nat \<times> nat" where
  "utf8_sequence b bs =
    (if b < 0x80 then (b, 0)
     else if 0xC2 \<le> b \<and> b \<le> 0xDF then
       (case bs of
          [] \<Rightarrow> (0xFFFD, 0)
        | c # cs \<Rightarrow>
            if continuation 0x80 0xBF c
            then ((b mod 0x20) * 0x40 + c mod 0x40, 1)
            else (0xFFFD, 0))
     else if 0xE0 \<le> b \<and> b \<le> 0xEF then
       (case bs of
          [] \<Rightarrow> (0xFFFD, 0)
        | c # cs \<Rightarrow>
            if \<not> continuation (if b = 0xE0 then 0xA0 else 0x80)
                                (if b = 0xED then 0x9F else 0xBF) c
            then (0xFFFD, 0)
            else (case cs of
                [] \<Rightarrow> (0xFFFD, 1)
              | d # ds \<Rightarrow>
                  if continuation 0x80 0xBF d
                  then ((b mod 0x10) * 0x1000 + (c mod 0x40) * 0x40 + d mod 0x40, 2)
                  else (0xFFFD, 1)))
     else if 0xF0 \<le> b \<and> b \<le> 0xF4 then
       (case bs of
          [] \<Rightarrow> (0xFFFD, 0)
        | c # cs \<Rightarrow>
            if \<not> continuation (if b = 0xF0 then 0x90 else 0x80)
                                (if b = 0xF4 then 0x8F else 0xBF) c
            then (0xFFFD, 0)
            else (case cs of
                [] \<Rightarrow> (0xFFFD, 1)
              | d # ds \<Rightarrow>
                  if \<not> continuation 0x80 0xBF d
                  then (0xFFFD, 1)
                  else (case ds of
                      [] \<Rightarrow> (0xFFFD, 2)
                    | e # es \<Rightarrow>
                        if continuation 0x80 0xBF e
                        then ((b mod 0x08) * 0x40000 + (c mod 0x40) * 0x1000
                               + (d mod 0x40) * 0x40 + e mod 0x40, 3)
                        else (0xFFFD, 2))))
     else (0xFFFD, 0))"

fun utf8_decode :: "nat list \<Rightarrow> nat list" where
  "utf8_decode [] = []"
| "utf8_decode (b # bs) =
    (case utf8_sequence b bs of (cp, used) \<Rightarrow> cp # utf8_decode (drop used bs))"

text \<open>
  \<^verbatim>\<open>decoder.decode(bytes)\<close>: the decoder was made without
  \<^verbatim>\<open>ignoreBOM\<close>, so one leading U+FEFF of the output is dropped.
\<close>

definition strip_bom :: "jsstring \<Rightarrow> jsstring" where
  "strip_bom s = (case s of [] \<Rightarrow> [] | c # cs \<Rightarrow> if c = 0xFEFF then cs else s)"

definition decoder_decode :: "bytes \<Rightarrow> jsstring" where
  "decoder_decode line = strip_bom (utf8_decode (map of_char line))"

text \<open>
  \<^verbatim>\<open>encoder.encode(string)\<close>: UTF-8 of the code points; a lone surrogate is
  written as U+FFFD (bytes EF BF BD).
\<close>

definition utf8_encode_cp :: "nat \<Rightarrow> nat list" where
  "utf8_encode_cp cp =
    (if cp < 0x80 then [cp]
     else if cp < 0x800 then [0xC0 + cp div 0x40, 0x80 + cp mod 0x40]
     else if 0xD800 \<le> cp \<and> cp \<le> 0xDFFF then [0xEF, 0xBF, 0xBD]
     else if cp < 0x10000 then
       [0xE0 + cp div 0x1000, 0x80 + (cp div 0x40) mod 0x40, 0x80 + cp mod 0x40]
     else if cp < 0x110000 then
       [0xF0 + cp div 0x40000, 0x80 + (cp div 0x1000) mod 0x40,
        0x80 + (cp div 0x40) mod 0x40, 0x80 + cp mod 0x40]
     else [0xEF, 0xBF, 0xBD])"

definition encoder_encode :: "jsstring \<Rightarrow> bytes" where
  "encoder_encode s = map char_of (concat (map utf8_encode_cp s))"

subsection \<open>String operations of the source\<close>

text \<open>
  \<^verbatim>\<open>String.prototype.trim\<close> removes white space and line terminators from both
  ends: TAB, LF, VT, FF, CR, SP, NBSP, the BOM, the line and paragraph separators and
  the space separators of Unicode.
\<close>

definition is_js_whitespace :: "nat \<Rightarrow> bool" where
  "is_js_whitespace c \<longleftrightarrow>
     c = 0x09 \<or> c = 0x0A \<or> c = 0x0B \<or> c = 0x0C \<or> c = 0x0D \<or> c = 0x20 \<or> c = 0xA0
     \<or> c = 0x1680 \<or> (0x2000 \<le> c \<and> c \<le> 0x200A) \<or> c = 0x2028 \<or> c = 0x2029
     \<or> c = 0x202F \<or> c = 0x205F \<or> c = 0x3000 \<or> c = 0xFEFF"

definition trim :: "jsstring \<Rightarrow> jsstring" where
  "trim s = rev (dropWhile is_js_whitespace (rev (dropWhile is_js_whitespace s)))"

text \<open>\<^verbatim>\<open>s.split(sep)\<close> for a separator of one character; \<^verbatim>\<open>"".split(" ")\<close> is \<^verbatim>\<open>[""]\<close>.\<close>

fun split :: "nat \<Rightarrow> jsstring \<Rightarrow> jsstring list" where
  "split sep [] = [[]]"
| "split sep (c # cs) =
    (if c = sep then [] # split sep cs
     else (case split sep cs of
             [] \<Rightarrow> [[c]]
           | t # ts \<Rightarrow> (c # t) # ts))"

text \<open>\<^verbatim>\<open>xs[i]\<close>: \<^verbatim>\<open>undefined\<close> (here \<open>None\<close>) out of range.\<close>

definition at_index :: "'a list \<Rightarrow> nat \<Rightarrow> 'a option" where
  "at_index xs i = (if i < length xs then Some (xs ! i) else None)"

text \<open>\<^verbatim>\<open>s.includes(p)\<close>: \<open>p\<close> occurs in \<open>s\<close>.\<close>

fun starts_with :: "'a list \<Rightarrow> 'a list \<Rightarrow> bool" where
  "starts_with s [] = True"
| "starts_with [] (p # ps) = False"
| "starts_with (c # cs) (p # ps) = (c = p \<and> starts_with cs ps)"

fun includes_str :: "jsstring \<Rightarrow> jsstring \<Rightarrow> bool" where
  "includes_str [] p = (p = [])"
| "includes_str (c # cs) p = (starts_with (c # cs) p \<or> includes_str cs p)"

text \<open>
  \<^verbatim>\<open>toUpperCase\<close> and \<^verbatim>\<open>toLowerCase\<close>. The source applies them to the
  command vocabulary only, which is ASCII; the model is the ASCII case mapping.
\<close>

definition toUpperCase :: "jsstring \<Rightarrow> jsstring" where
  "toUpperCase s = map (\<lambda>c. if 0x61 \<le> c \<and> c \<le> 0x7A then c - 0x20 else c) s"

definition toLowerCase :: "jsstring \<Rightarrow> jsstring" where
  "toLowerCase s = map (\<lambda>c. if 0x41 \<le> c \<and> c \<le> 0x5A then c + 0x20 else c) s"

text \<open>
  \<^verbatim>\<open>Array.prototype.sort()\<close> without a comparator orders strings by their code
  units; the sort is stable. It is an insertion sort here.
\<close>

fun js_string_less :: "jsstring \<Rightarrow> jsstring \<Rightarrow> bool" where
  "js_string_less [] [] = False"
| "js_string_less [] (y # ys) = True"
| "js_string_less (x # xs) [] = False"
| "js_string_less (x # xs) (y # ys) = (x < y \<or> (x = y \<and> js_string_less xs ys))"

fun js_insert :: "jsstring \<Rightarrow> jsstring list \<Rightarrow> jsstring list" where
  "js_insert x [] = [x]"
| "js_insert x (y # ys) = (if js_string_less x y then x # y # ys else y # js_insert x ys)"

definition js_sort :: "jsstring list \<Rightarrow> jsstring list" where
  "js_sort xs = foldl (\<lambda>acc x. js_insert x acc) [] xs"

section \<open>The command recognizer\<close>

text \<open>The array literal of \<^verbatim>\<open>COMMANDS\<close>, in the order of the source.\<close>

definition command_names :: "jsstring list" where
  "command_names = map js
    [''ARTICLE'', ''AUTHINFO USER'', ''AUTHINFO PASS'', ''BODY'', ''CAPABILITIES'',
     ''DATE'', ''GROUP'', ''HDR'', ''HEAD'', ''HELP'', ''IHAVE'', ''LAST'', ''LIST'',
     ''LIST ACTIVE.TIMES'', ''LIST ACTIVE'', ''LIST DISTRIB.PATS'', ''LIST HEADERS'',
     ''LIST NEWSGROUPS'', ''LIST OVERVIEW.FMT'', ''LISTGROUP'', ''MODE READER'',
     ''NEWGROUPS'', ''NEWNEWS'', ''NEXT'', ''OVER'', ''POST'', ''QUIT'', ''STAT'',
     ''SLAVE'']"

text \<open>
  \<^verbatim>\<open>[...].sort().reduce((commands, command) => { push upper; push lower }, [])\<close>:
  the sorted names, each as the bytes of its upper-case and of its lower-case form.
\<close>

definition COMMANDS :: "bytes list" where
  "COMMANDS = foldl (\<lambda>commands command.
       commands @ [encoder_encode (toUpperCase command), encoder_encode (toLowerCase command)])
     [] (js_sort command_names)"

text \<open>
  \<^verbatim>\<open>command.every((byte, i) => byte === line[i])\<close>: every byte of the command
  equals the byte of the line at its index; past the end of the line
  \<^verbatim>\<open>line[i]\<close> is \<^verbatim>\<open>undefined\<close> and equals no byte.
\<close>

fun every_byte :: "bytes \<Rightarrow> bytes \<Rightarrow> bool" where
  "every_byte [] line = True"
| "every_byte (byte # command) [] = False"
| "every_byte (byte # command) (l # line) = (byte = l \<and> every_byte command line)"

text \<open>
  \<^verbatim>\<open>parseCommand\<close>: the loop runs over all of \<^verbatim>\<open>COMMANDS\<close> and keeps the
  last command that matched.
\<close>

definition parseCommand :: "bytes \<Rightarrow> jsstring option" where
  "parseCommand line = foldl (\<lambda>result command.
       if every_byte command line
       then Some (toUpperCase (trim (decoder_decode command)))
       else result)
     None COMMANDS"

section \<open>The request stream\<close>

text \<open>
  \<^verbatim>\<open>ConnectOptions\<close>: the operator's credentials for the provider and the
  path of the htpasswd file; each may be absent (\<^verbatim>\<open>undefined\<close>, here
  \<open>None\<close>).
\<close>

record ConnectOptions =
  user :: "jsstring option"
  pass :: "jsstring option"
  htpasswd :: "jsstring option"

text \<open>
  The object \<^verbatim>\<open>authinfo\<close> of the constructor: the user name the client
  claimed (the third word of its \<^verbatim>\<open>AUTHINFO USER\<close> line, which may be
  \<^verbatim>\<open>undefined\<close>) and whether the session is authenticated.
\<close>

record authinfo =
  authinfo_user :: "jsstring option"
  authenticated :: bool

text \<open>
  \<^verbatim>\<open>validate\<close> is imported from the htpasswd library: it reads the file and
  answers whether the pair is in it. It is a parameter of the model; its promise may
  reject, which ends the transform with an error.
\<close>

datatype error = ValidateRejected

type_synonym validator =
  "jsstring option \<Rightarrow> jsstring option \<Rightarrow> jsstring option \<Rightarrow> error + bool"

text \<open>A template literal writes an absent value as \<^verbatim>\<open>undefined\<close>.\<close>

definition template :: "jsstring option \<Rightarrow> jsstring" where
  "template v = (case v of None \<Rightarrow> js ''undefined'' | Some s \<Rightarrow> s)"

text \<open>
  The initial \<^verbatim>\<open>authinfo\<close>: \<^verbatim>\<open>authenticated: !htpasswd\<close> is true when
  the path is absent or the empty string.
\<close>

definition RequestStream_init :: "ConnectOptions \<Rightarrow> authinfo" where
  "RequestStream_init options =
     \<lparr>authinfo_user = Some [],
      authenticated = (htpasswd options = None \<or> htpasswd options = Some [])\<rparr>"

text \<open>
  \<^verbatim>\<open>const arg = decoder.decode(line).trim().split(" ")[2]\<close>
\<close>

definition line_arg :: "bytes \<Rightarrow> jsstring option" where
  "line_arg line = at_index (split 0x20 (trim (decoder_decode line))) 2"

text \<open>
  \<^verbatim>\<open>transform(line, controller)\<close> of the request stream. The result is the
  new \<^verbatim>\<open>authinfo\<close> and the chunk given to \<^verbatim>\<open>controller.enqueue\<close>
  (every path that returns enqueues exactly one chunk).
\<close>

definition RequestStream_transform ::
  "validator \<Rightarrow> ConnectOptions \<Rightarrow> authinfo \<Rightarrow> bytes \<Rightarrow> error + (authinfo \<times> bytes)" where
  "RequestStream_transform validate options a line =
    (let command = parseCommand line in
     if (case command of None \<Rightarrow> False | Some c \<Rightarrow> includes_str c (js ''AUTHINFO '')) then
       if authenticated a then Inr (a, line)
       else
         let arg = line_arg line in
         if command = Some (js ''AUTHINFO USER'') then
           Inr (a\<lparr>authinfo_user := arg\<rparr>,
                encoder_encode (js ''AUTHINFO USER '' @ template (user options) @ js CRLF))
         else if command = Some (js ''AUTHINFO PASS'') then
           (case validate (htpasswd options) (authinfo_user a) arg of
              Inl e \<Rightarrow> Inl e
            | Inr ok \<Rightarrow>
                if ok then
                  Inr (a\<lparr>authenticated := True\<rparr>,
                       encoder_encode (js ''AUTHINFO PASS '' @ template (pass options) @ js CRLF))
                else Inr (a, line))
         else Inr (a, line)
     else Inr (a, line))"

section \<open>The response stream\<close>

text \<open>
  \<^verbatim>\<open>Number(string)\<close>. A JavaScript number is a double; the model keeps the
  mathematical value of the numeric literal as a rational. The two agree on what the
  response stream asks, whether the number is one of the integer keys of
  \<^verbatim>\<open>ResponseCodes\<close>, for every string of at most three characters, the only
  ones \<^verbatim>\<open>Number\<close> is given here.
\<close>

datatype jsnumber = NaN | PosInfinity | NegInfinity | Finite rat

definition is_digit :: "nat \<Rightarrow> bool" where
  "is_digit c \<longleftrightarrow> 0x30 \<le> c \<and> c \<le> 0x39"

definition digits_value :: "nat \<Rightarrow> (nat \<Rightarrow> nat) \<Rightarrow> jsstring \<Rightarrow> nat" where
  "digits_value base digit ds = foldl (\<lambda>n c. base * n + digit c) 0 ds"

text \<open>\<open>DecimalDigits\<close>: one or more decimal digits.\<close>

definition decimal_digits :: "jsstring \<Rightarrow> nat option" where
  "decimal_digits ds =
     (if ds \<noteq> [] \<and> list_all is_digit ds
      then Some (digits_value 10 (\<lambda>c. c - 0x30) ds) else None)"

text \<open>\<open>SignedInteger\<close>: decimal digits after an optional sign.\<close>

definition signed_integer :: "jsstring \<Rightarrow> int option" where
  "signed_integer s =
     (case s of
        [] \<Rightarrow> None
      | c # cs \<Rightarrow>
          if c = 0x2B then map_option int (decimal_digits cs)
          else if c = 0x2D then map_option (\<lambda>n. - int n) (decimal_digits cs)
          else map_option int (decimal_digits s))"

definition scale10 :: "nat \<Rightarrow> int \<Rightarrow> rat" where
  "scale10 m e = (if 0 \<le> e then of_nat m * 10 ^ nat e else of_nat m / 10 ^ nat (- e))"

text \<open>
  \<open>StrUnsignedDecimalLiteral\<close>: \<^verbatim>\<open>Infinity\<close>, or digits with an optional
  fraction and an optional exponent part (\<^verbatim>\<open>12\<close>, \<^verbatim>\<open>12.\<close>,
  \<^verbatim>\<open>1.5\<close>, \<^verbatim>\<open>.5\<close>, each possibly followed by \<^verbatim>\<open>e\<close> or
  \<^verbatim>\<open>E\<close> and a signed integer).
\<close>

definition is_exponent_indicator :: "nat \<Rightarrow> bool" where
  "is_exponent_indicator c \<longleftrightarrow> c = 0x65 \<or> c = 0x45"

definition unsigned_decimal :: "jsstring \<Rightarrow> jsnumber" where
  "unsigned_decimal s =
    (if s = js ''Infinity'' then PosInfinity
     else
       let mantissa = takeWhile (\<lambda>c. \<not> is_exponent_indicator c) s;
           exponent_part = dropWhile (\<lambda>c. \<not> is_exponent_indicator c) s;
           int_digits = takeWhile is_digit mantissa;
           fraction = (case dropWhile is_digit mantissa of
                         [] \<Rightarrow> Some []
                       | c # cs \<Rightarrow> if c = 0x2E \<and> list_all is_digit cs then Some cs else None);
           exponent = (case exponent_part of
                         [] \<Rightarrow> Some 0
                       | c # cs \<Rightarrow> signed_integer cs)
       in case fraction of
            None \<Rightarrow> NaN
          | Some frac_digits \<Rightarrow>
              (case exponent of
                 None \<Rightarrow> NaN
               | Some e \<Rightarrow>
                   if int_digits = [] \<and> frac_digits = [] then NaN
                   else Finite (scale10 (digits_value 10 (\<lambda>c. c - 0x30) (int_digits @ frac_digits))
                                        (e - int (length frac_digits)))))"

definition negate :: "jsnumber \<Rightarrow> jsnumber" where
  "negate n = (case n of NaN \<Rightarrow> NaN | PosInfinity \<Rightarrow> NegInfinity
                | NegInfinity \<Rightarrow> PosInfinity | Finite q \<Rightarrow> Finite (- q))"

text \<open>
  \<open>NonDecimalIntegerLiteral\<close>: \<^verbatim>\<open>0x\<close>, \<^verbatim>\<open>0o\<close> or \<^verbatim>\<open>0b\<close>
  (either case) and one or more digits of that base; no sign.
\<close>

definition hex_digit :: "nat \<Rightarrow> nat option" where
  "hex_digit c =
     (if 0x30 \<le> c \<and> c \<le> 0x39 then Some (c - 0x30)
      else if 0x41 \<le> c \<and> c \<le> 0x46 then Some (c - 0x37)
      else if 0x61 \<le> c \<and> c \<le> 0x66 then Some (c - 0x57)
      else None)"

definition based_digits :: "nat \<Rightarrow> jsstring \<Rightarrow> nat option" where
  "based_digits base ds =
     (if ds \<noteq> [] \<and> list_all (\<lambda>c. case hex_digit c of None \<Rightarrow> False | Some d \<Rightarrow> d < base) ds
      then Some (digits_value base (\<lambda>c. the (hex_digit c)) ds) else None)"

definition non_decimal :: "jsstring \<Rightarrow> nat option" where
  "non_decimal s =
     (case s of
        z # p # ds \<Rightarrow>
          if z \<noteq> 0x30 then None
          else if p = 0x78 \<or> p = 0x58 then based_digits 16 ds
          else if p = 0x6F \<or> p = 0x4F then based_digits 8 ds
          else if p = 0x62 \<or> p = 0x42 then based_digits 2 ds
          else None
      | _ \<Rightarrow> None)"

definition Number_js :: "jsstring \<Rightarrow> jsnumber" where
  "Number_js s =
    (let t = trim s in
     case t of
       [] \<Rightarrow> Finite 0
     | c # cs \<Rightarrow>
         (case non_decimal t of
            Some n \<Rightarrow> Finite (of_nat n)
          | None \<Rightarrow>
              if c = 0x2B then unsigned_decimal cs
              else if c = 0x2D then negate (unsigned_decimal cs)
              else unsigned_decimal t))"

text \<open>The object \<^verbatim>\<open>ResponseCodes\<close>.\<close>

definition ResponseCodes :: "(nat \<times> string) list" where
  "ResponseCodes =
    [(200, ''Service available, posting allowed''),
     (201, ''Service available, posting prohibited''),
     (281, ''Authentication accepted''),
     (381, ''Password required''),
     (400, ''Service temporarily unavailable''),
     (481, ''Authentication failed/rejected''),
     (482, ''Authentication commands issued out of sequence''),
     (502, ''Service permanently unavailable'')]"

text \<open>
  \<^verbatim>\<open>ResponseCodes[n]\<close> for a number \<open>n\<close>: the property whose key is the
  decimal writing of \<open>n\<close>, so the text of the code that \<open>n\<close> equals, and
  \<^verbatim>\<open>undefined\<close> for every other number, for \<^verbatim>\<open>NaN\<close> and for the
  infinities.
\<close>

definition ResponseCodes_at :: "jsnumber \<Rightarrow> jsstring option" where
  "ResponseCodes_at n =
     (case n of
        Finite q \<Rightarrow> map_of (map (\<lambda>(code, text). (rat_of_nat code, js text)) ResponseCodes) q
      | _ \<Rightarrow> None)"

text \<open>
  \<^verbatim>\<open>transform(line, controller)\<close> of the response stream;
  \<^verbatim>\<open>if (statusText)\<close> holds for a string that is not empty.
\<close>

definition ResponseStream_transform :: "bytes \<Rightarrow> bytes" where
  "ResponseStream_transform line =
    (let status = decoder_decode (take 3 line);
         statusText = ResponseCodes_at (Number_js status)
     in case statusText of
          None \<Rightarrow> line
        | Some t \<Rightarrow>
            if t \<noteq> [] then encoder_encode (status @ js '' '' @ t @ js CRLF)
            else line)"

section \<open>The pipeline\<close>

text \<open>
  A transform stream is its \<^verbatim>\<open>transform\<close> function and the state it closes
  over. \<^verbatim>\<open>pipe(source, target, stream)\<close> is
  \<^verbatim>\<open>source.readable.pipeThrough(stream).pipeTo(target.writable).catch(...)\<close>:
  each chunk the connection delivers is given to \<^verbatim>\<open>transform\<close> as it
  arrives, and what \<^verbatim>\<open>transform\<close> enqueues is written to the target. A
  chunk is whatever one read of the socket returned. When \<^verbatim>\<open>transform\<close>
  throws the stream is errored, nothing more is written, and \<^verbatim>\<open>catch\<close>
  drops the error. The result is the state of the stream at the end and the chunks
  written.
\<close>

fun pipe :: "('s \<Rightarrow> bytes \<Rightarrow> error + ('s \<times> bytes)) \<Rightarrow> 's \<Rightarrow> bytes list \<Rightarrow> 's \<times> bytes list" where
  "pipe transform s [] = (s, [])"
| "pipe transform s (chunk # chunks) =
    (case transform s chunk of
       Inl e \<Rightarrow> (s, [])
     | Inr (s', out) \<Rightarrow>
         (case pipe transform s' chunks of (s'', outs) \<Rightarrow> (s'', out # outs)))"

text \<open>
  The two pipes of \<^verbatim>\<open>handle\<close>:
  \<^verbatim>\<open>pipe(server, conn, new ResponseStream())\<close> and
  \<^verbatim>\<open>pipe(conn, server, new RequestStream(options))\<close>.
\<close>

definition response_pipe :: "bytes list \<Rightarrow> bytes list" where
  "response_pipe chunks =
     snd (pipe (\<lambda>u chunk. Inr (u, ResponseStream_transform chunk)) () chunks)"

definition request_pipe :: "validator \<Rightarrow> ConnectOptions \<Rightarrow> bytes list \<Rightarrow> authinfo \<times> bytes list" where
  "request_pipe validate options chunks =
     pipe (RequestStream_transform validate options) (RequestStream_init options) chunks"

section \<open>Sample data\<close>

text \<open>Options, credential stores and predicates that the statements below use.\<close>

definition sample_options :: ConnectOptions where
  "sample_options =
     \<lparr>user = Some (js ''provider''), pass = Some (js ''hunter2''),
      htpasswd = Some (js ''.htpasswd'')\<rparr>"

text \<open>A store that holds the pair (alice, secret) and nothing else.\<close>

definition store_alice :: validator where
  "store_alice path u p = Inr (u = Some (js ''alice'') \<and> p = Some (js ''secret''))"

text \<open>A store that holds no pair.\<close>

definition store_nobody :: validator where
  "store_nobody path u p = Inr False"

text \<open>A store whose only entry has the empty user name and the password x.\<close>

definition store_empty_name :: validator where
  "store_empty_name path u p = Inr (u = Some [] \<and> p = Some (js ''x''))"

text \<open>Bytes below 128: the ASCII range.\<close>

definition ascii :: "bytes \<Rightarrow> bool" where
  "ascii s = list_all (\<lambda>c. (of_char c :: nat) < 0x80) s"

text \<open>
  A word a client can send as a user name or a password: not empty, ASCII, and without
  white space.
\<close>

definition token :: "bytes \<Rightarrow> bool" where
  "token tok \<longleftrightarrow> tok \<noteq> [] \<and> ascii tok \<and> list_all (\<lambda>c. \<not> is_js_whitespace (of_char c)) tok"

text \<open>The keys of \<^verbatim>\<open>ResponseCodes\<close>, as numbers.\<close>

definition response_keys :: "rat set" where
  "response_keys = {200, 201, 281, 381, 400, 481, 482, 502}"

text \<open>
  The three decimal digits of a status code, as the bytes of a status line.
\<close>

definition decimal3 :: "nat \<Rightarrow> bytes" where
  "decimal3 code =
     [char_of (0x30 + code div 100), char_of (0x30 + (code div 10) mod 10),
      char_of (0x30 + code mod 10)]"

text \<open>
  The first three bytes that make the response stream rewrite a line: the digits of
  the codes of the table, and the four spellings that \<^verbatim>\<open>Number\<close> reads as
  200 or 400 in exponent notation.
\<close>

definition code_prefixes :: "bytes set" where
  "code_prefixes = {''200'', ''201'', ''281'', ''381'', ''400'', ''481'', ''482'', ''502''}"

definition exponent_prefixes :: "bytes set" where
  "exponent_prefixes = {''2e2'', ''2E2'', ''4e2'', ''4E2''}"

text \<open>
  A check on a table of commands: no command is a proper prefix of a command that
  stands before it in the table.
\<close>

fun longer_later :: "bytes list \<Rightarrow> bool" where
  "longer_later [] = True"
| "longer_later (c # cs) =
     (list_all (\<lambda>d. \<not> (every_byte d c \<and> length d < length c)) cs \<and> longer_later cs)"

section \<open>Lemmas\<close>

lemmas char_of_numeral = char_of_def bit_Suc_0_iff

lemma encoder_encode_append: "encoder_encode (s @ t) = encoder_encode s @ encoder_encode t"
  by (simp add: encoder_encode_def)

lemma encoder_encode_js: "ascii s \<Longrightarrow> encoder_encode (js s) = s"
  by (induction s) (simp_all add: encoder_encode_def js_def ascii_def utf8_encode_cp_def)

lemma utf8_decode_ascii: "list_all (\<lambda>b. b < 0x80) bs \<Longrightarrow> utf8_decode bs = bs"
  by (induction bs) (simp_all add: utf8_sequence_def)

lemma decoder_decode_ascii: "ascii s \<Longrightarrow> decoder_decode s = js s"
proof -
  assume a: "ascii s"
  then have "list_all (\<lambda>b. b < 0x80) (map of_char s :: nat list)"
    by (simp add: ascii_def list_all_iff)
  then have u: "utf8_decode (map of_char s) = map of_char s"
    by (rule utf8_decode_ascii)
  have "strip_bom (map of_char s) = (map of_char s :: nat list)"
    using a by (cases s) (auto simp add: strip_bom_def ascii_def)
  with u show ?thesis by (simp add: decoder_decode_def js_def)
qed

lemma js_sort_names: "js_sort command_names = map js
    [''ARTICLE'', ''AUTHINFO PASS'', ''AUTHINFO USER'',  ''BODY'', ''CAPABILITIES'',
     ''DATE'', ''GROUP'', ''HDR'', ''HEAD'', ''HELP'', ''IHAVE'', ''LAST'', ''LIST'',
      ''LIST ACTIVE'', ''LIST ACTIVE.TIMES'', ''LIST DISTRIB.PATS'', ''LIST HEADERS'',
     ''LIST NEWSGROUPS'', ''LIST OVERVIEW.FMT'', ''LISTGROUP'', ''MODE READER'',
     ''NEWGROUPS'', ''NEWNEWS'', ''NEXT'', ''OVER'', ''POST'', ''QUIT'', ''SLAVE'', ''STAT'']"
  by (simp add: js_sort_def command_names_def js_def)

lemma COMMANDS_eq: "COMMANDS =
  [''ARTICLE'', ''article'', ''AUTHINFO PASS'', ''authinfo pass'',
  ''AUTHINFO USER'', ''authinfo user'', ''BODY'', ''body'',
  ''CAPABILITIES'', ''capabilities'', ''DATE'', ''date'', ''GROUP'',
  ''group'', ''HDR'', ''hdr'', ''HEAD'', ''head'', ''HELP'', ''help'',
  ''IHAVE'', ''ihave'', ''LAST'', ''last'', ''LIST'', ''list'',
  ''LIST ACTIVE'', ''list active'', ''LIST ACTIVE.TIMES'',
  ''list active.times'', ''LIST DISTRIB.PATS'', ''list distrib.pats'',
  ''LIST HEADERS'', ''list headers'', ''LIST NEWSGROUPS'',
  ''list newsgroups'', ''LIST OVERVIEW.FMT'', ''list overview.fmt'',
  ''LISTGROUP'', ''listgroup'', ''MODE READER'', ''mode reader'',
  ''NEWGROUPS'', ''newgroups'', ''NEWNEWS'', ''newnews'', ''NEXT'',
  ''next'', ''OVER'', ''over'', ''POST'', ''post'', ''QUIT'', ''quit'',
  ''SLAVE'', ''slave'', ''STAT'', ''stat'']"
  unfolding COMMANDS_def js_sort_names
  by (simp add: js_def toUpperCase_def toLowerCase_def encoder_encode_def utf8_encode_cp_def char_of_numeral)

lemma recognized_eq: "map (\<lambda>c. toUpperCase (trim (decoder_decode c))) COMMANDS = map js
  [''ARTICLE'', ''ARTICLE'', ''AUTHINFO PASS'', ''AUTHINFO PASS'',
  ''AUTHINFO USER'', ''AUTHINFO USER'', ''BODY'', ''BODY'',
  ''CAPABILITIES'', ''CAPABILITIES'', ''DATE'', ''DATE'', ''GROUP'',
  ''GROUP'', ''HDR'', ''HDR'', ''HEAD'', ''HEAD'', ''HELP'', ''HELP'',
  ''IHAVE'', ''IHAVE'', ''LAST'', ''LAST'', ''LIST'', ''LIST'',
  ''LIST ACTIVE'', ''LIST ACTIVE'', ''LIST ACTIVE.TIMES'',
  ''LIST ACTIVE.TIMES'', ''LIST DISTRIB.PATS'', ''LIST DISTRIB.PATS'',
  ''LIST HEADERS'', ''LIST HEADERS'', ''LIST NEWSGROUPS'',
  ''LIST NEWSGROUPS'', ''LIST OVERVIEW.FMT'', ''LIST OVERVIEW.FMT'',
  ''LISTGROUP'', ''LISTGROUP'', ''MODE READER'', ''MODE READER'',
  ''NEWGROUPS'', ''NEWGROUPS'', ''NEWNEWS'', ''NEWNEWS'', ''NEXT'',
  ''NEXT'', ''OVER'', ''OVER'', ''POST'', ''POST'', ''QUIT'', ''QUIT'',
  ''SLAVE'', ''SLAVE'', ''STAT'', ''STAT'']"
  unfolding COMMANDS_eq
  by (simp add: js_def toUpperCase_def decoder_decode_def utf8_sequence_def strip_bom_def trim_def is_js_whitespace_def)

lemma longer_later_COMMANDS: "longer_later COMMANDS"
  unfolding COMMANDS_eq by simp

lemma foldl_last_match:
  "foldl (\<lambda>r c. if P c then Some (g c) else r) r0 cs =
     (case filter P cs of [] \<Rightarrow> r0 | m # ms \<Rightarrow> Some (g (last (m # ms))))"
proof (induction cs rule: rev_induct)
  case Nil
  then show ?case by simp
next
  case (snoc x xs)
  then show ?case by (simp split: list.splits)
qed

lemma every_byte_take: "every_byte c line \<longleftrightarrow> take (length c) line = c"
  by (induction c line rule: every_byte.induct) auto

lemma parseCommand_filter:
  "parseCommand line =
     (case filter (\<lambda>c. every_byte c line) COMMANDS of
        [] \<Rightarrow> None
      | m # ms \<Rightarrow> Some (toUpperCase (trim (decoder_decode (last (m # ms))))))"
  unfolding parseCommand_def by (rule foldl_last_match)

lemma every_byte_shorter:
  assumes "every_byte a line" and "every_byte b line" and "length b \<le> length a"
  shows "every_byte b a"
proof -
  from assms(1) have a: "take (length a) line = a" by (simp add: every_byte_take)
  from assms(2) have b: "take (length b) line = b" by (simp add: every_byte_take)
  have "take (length b) a = take (length b) (take (length a) line)" using a by simp
  also have "\<dots> = take (length b) line" using assms(3) by (simp add: min_def)
  finally show ?thesis using b by (simp add: every_byte_take)
qed

lemma longer_later_last:
  assumes "longer_later cs" and "m \<in> set (filter (\<lambda>c. every_byte c line) cs)"
  shows "length m \<le> length (last (filter (\<lambda>c. every_byte c line) cs))"
  using assms
proof (induction cs)
  case Nil
  then show ?case by simp
next
  case (Cons c cs)
  let ?P = "\<lambda>c. every_byte c line"
  show ?case
  proof (cases "filter ?P cs = []")
    case True
    with Cons.prems show ?thesis by (auto split: if_splits)
  next
    case False
    then have l: "last (filter ?P cs) \<in> set (filter ?P cs)" by (rule last_in_set)
    then have lcs: "last (filter ?P cs) \<in> set cs" and lP: "?P (last (filter ?P cs))" by auto
    have lastc: "last (filter ?P (c # cs)) = last (filter ?P cs)" using False by simp
    show ?thesis
    proof (cases "m \<in> set (filter ?P cs)")
      case True
      with Cons show ?thesis using lastc by simp
    next
      case False
      with Cons.prems have mc: "m = c" and Pc: "?P c" by (auto split: if_splits)
      show ?thesis
      proof (rule ccontr)
        assume "\<not> ?thesis"
        then have shorter: "length (last (filter ?P cs)) < length c" using lastc mc by simp
        then have "every_byte (last (filter ?P cs)) c"
          using every_byte_shorter [OF Pc lP] by simp
        moreover from Cons.prems(1) lcs
        have "\<not> (every_byte (last (filter ?P cs)) c \<and> length (last (filter ?P cs)) < length c)"
          by (simp add: list_all_iff)
        ultimately show False using shorter by simp
      qed
    qed
  qed
qed

lemma parseCommand_None: "parseCommand line = None \<longleftrightarrow> (\<forall>c\<in>set COMMANDS. take (length c) line \<noteq> c)"
proof -
  have "parseCommand line = None \<longleftrightarrow> filter (\<lambda>c. every_byte c line) COMMANDS = []"
    by (simp add: parseCommand_filter split: list.splits)
  also have "\<dots> \<longleftrightarrow> (\<forall>c\<in>set COMMANDS. \<not> every_byte c line)"
    by (simp only: filter_empty_conv)
  finally show ?thesis by (simp only: every_byte_take)
qed

lemma parseCommand_last:
  assumes "filter (\<lambda>c. every_byte c line) COMMANDS \<noteq> []"
  shows "parseCommand line =
    Some (toUpperCase (trim (decoder_decode (last (filter (\<lambda>c. every_byte c line) COMMANDS)))))"
proof -
  from assms obtain m ms where ms: "filter (\<lambda>c. every_byte c line) COMMANDS = m # ms"
    by (cases "filter (\<lambda>c. every_byte c line) COMMANDS") auto
  show ?thesis unfolding parseCommand_filter ms by (simp only: list.case)
qed

lemma parseCommand_longest:
  assumes "c \<in> set COMMANDS" and "every_byte c line"
    and "\<forall>d\<in>set COMMANDS. every_byte d line \<longrightarrow> length d \<le> length c"
  shows "parseCommand line = Some (toUpperCase (trim (decoder_decode c)))"
proof -
  define ms where "ms = filter (\<lambda>c. every_byte c line) COMMANDS"
  from assms(1,2) have cm: "c \<in> set ms" unfolding ms_def by simp
  have ne: "ms \<noteq> []"
    using length_pos_if_in_set [OF cm] by (simp only: length_greater_0_conv not_False_eq_True)
  then have l: "last ms \<in> set ms" by (rule last_in_set)
  then have lc: "last ms \<in> set COMMANDS" and lp: "every_byte (last ms) line"
    unfolding ms_def by simp_all
  from assms(3) lc lp have "length (last ms) \<le> length c" by blast
  moreover have "length c \<le> length (last ms)"
    using longer_later_last [OF longer_later_COMMANDS] cm unfolding ms_def by blast
  ultimately have len: "length (last ms) = length c" by simp
  have "last ms = take (length (last ms)) line" using lp by (simp only: every_byte_take)
  also have "\<dots> = take (length c) line" by (simp only: len)
  also have "\<dots> = c" using assms(2) by (simp only: every_byte_take)
  finally have "last ms = c" .
  moreover have "parseCommand line = Some (toUpperCase (trim (decoder_decode (last ms))))"
    using ne unfolding ms_def by (rule parseCommand_last)
  ultimately show ?thesis by simp
qed

lemma parseCommand_range:
  assumes "parseCommand line = Some r"
  shows "r \<in> set (map (\<lambda>c. toUpperCase (trim (decoder_decode c))) COMMANDS)"
proof -
  define ms where "ms = filter (\<lambda>c. every_byte c line) COMMANDS"
  have ne: "ms \<noteq> []"
  proof
    assume "ms = []"
    then have "parseCommand line = None" by (simp add: parseCommand_filter ms_def)
    with assms show False by simp
  qed
  then have "last ms \<in> set ms" by (rule last_in_set)
  then have lc: "last ms \<in> set COMMANDS" by (simp add: ms_def)
  have "parseCommand line = Some (toUpperCase (trim (decoder_decode (last ms))))"
    using ne unfolding ms_def by (rule parseCommand_last)
  with assms have "r = toUpperCase (trim (decoder_decode (last ms)))" by simp
  with lc show ?thesis by (simp only: set_map image_eqI)
qed

lemma authinfo_names:
  "list_all (\<lambda>r. includes_str r (js ''AUTHINFO '') \<longrightarrow> r = js ''AUTHINFO USER'' \<or> r = js ''AUTHINFO PASS'')
     (map (\<lambda>c. toUpperCase (trim (decoder_decode c))) COMMANDS)"
  unfolding recognized_eq by (simp add: js_def)

lemma parseCommand_authinfo:
  assumes "parseCommand line = Some r" and "includes_str r (js ''AUTHINFO '')"
  shows "r = js ''AUTHINFO USER'' \<or> r = js ''AUTHINFO PASS''"
  using parseCommand_range [OF assms(1)] authinfo_names assms(2)
  unfolding list_all_iff by blast

lemma includes_authinfo:
  "includes_str (js ''AUTHINFO USER'') (js ''AUTHINFO '')"
  "includes_str (js ''AUTHINFO PASS'') (js ''AUTHINFO '')"
  by (simp_all add: js_def)

lemma transform_other:
  assumes "parseCommand line \<noteq> Some (js ''AUTHINFO USER'')"
    and "parseCommand line \<noteq> Some (js ''AUTHINFO PASS'')"
  shows "RequestStream_transform validate options a line = Inr (a, line)"
proof (cases "parseCommand line")
  case None
  then show ?thesis by (simp add: RequestStream_transform_def)
next
  case (Some r)
  with assms have "\<not> includes_str r (js ''AUTHINFO '')"
    using parseCommand_authinfo [OF Some] by auto
  with Some show ?thesis by (simp add: RequestStream_transform_def)
qed

lemma transform_authenticated:
  assumes "authenticated a"
  shows "RequestStream_transform validate options a line = Inr (a, line)"
  using assms by (simp add: RequestStream_transform_def Let_def)

lemma pipe_authenticated:
  assumes "authenticated a"
  shows "pipe (RequestStream_transform validate options) a lines = (a, lines)"
  using assms by (induction lines) (simp_all add: transform_authenticated)

lemma js_append: "js (s @ t) = js s @ js t"
  by (simp add: js_def)

lemma ascii_append: "ascii (s @ t) \<longleftrightarrow> ascii s \<and> ascii t"
  by (simp add: ascii_def)

lemma ascii_CRLF: "ascii CRLF"
  by (simp add: ascii_def CRLF_def)

lemma parseCommand_AUTHINFO_USER:
  "parseCommand (''AUTHINFO USER'' @ rest) = Some (js ''AUTHINFO USER'')"
  unfolding parseCommand_def COMMANDS_eq
  by (simp add: js_def toUpperCase_def decoder_decode_def utf8_sequence_def strip_bom_def trim_def is_js_whitespace_def)

lemma parseCommand_AUTHINFO_PASS:
  "parseCommand (''AUTHINFO PASS'' @ rest) = Some (js ''AUTHINFO PASS'')"
  unfolding parseCommand_def COMMANDS_eq
  by (simp add: js_def toUpperCase_def decoder_decode_def utf8_sequence_def strip_bom_def trim_def is_js_whitespace_def)

lemma parseCommand_authinfo_user:
  "parseCommand (''authinfo user'' @ rest) = Some (js ''AUTHINFO USER'')"
  unfolding parseCommand_def COMMANDS_eq
  by (simp add: js_def toUpperCase_def decoder_decode_def utf8_sequence_def strip_bom_def trim_def is_js_whitespace_def)

lemma parseCommand_authinfo_pass:
  "parseCommand (''authinfo pass'' @ rest) = Some (js ''AUTHINFO PASS'')"
  unfolding parseCommand_def COMMANDS_eq
  by (simp add: js_def toUpperCase_def decoder_decode_def utf8_sequence_def strip_bom_def trim_def is_js_whitespace_def)

lemma template_line:
  "encoder_encode (js s @ template v @ js CRLF) = s @ encoder_encode (template v) @ CRLF" if "ascii s"
  using that by (simp add: encoder_encode_append encoder_encode_js ascii_CRLF)

lemma transform_user:
  assumes "\<not> authenticated a" and "parseCommand line = Some (js ''AUTHINFO USER'')"
  shows "RequestStream_transform validate options a line =
           Inr (a\<lparr>authinfo_user := line_arg line\<rparr>,
                ''AUTHINFO USER '' @ encoder_encode (template (user options)) @ CRLF)"
proof -
  have t: "encoder_encode (js ''AUTHINFO USER '' @ template (user options) @ js CRLF)
         = ''AUTHINFO USER '' @ encoder_encode (template (user options)) @ CRLF"
    by (rule template_line) (simp add: ascii_def)
  show ?thesis
    unfolding RequestStream_transform_def assms(2) t Let_def
    using assms(1) includes_authinfo(1) by simp
qed

lemma transform_pass:
  assumes "\<not> authenticated a" and "parseCommand line = Some (js ''AUTHINFO PASS'')"
  shows "RequestStream_transform validate options a line =
           (case validate (htpasswd options) (authinfo_user a) (line_arg line) of
              Inl e \<Rightarrow> Inl e
            | Inr ok \<Rightarrow>
                if ok
                then Inr (a\<lparr>authenticated := True\<rparr>,
                          ''AUTHINFO PASS '' @ encoder_encode (template (pass options)) @ CRLF)
                else Inr (a, line))"
proof -
  have t: "encoder_encode (js ''AUTHINFO PASS '' @ template (pass options) @ js CRLF)
         = ''AUTHINFO PASS '' @ encoder_encode (template (pass options)) @ CRLF"
    by (rule template_line) (simp add: ascii_def)
  have ne: "js ''AUTHINFO PASS'' \<noteq> js ''AUTHINFO USER''"
    by (simp add: js_def)
  show ?thesis
    unfolding RequestStream_transform_def assms(2) t Let_def
    using assms(1) includes_authinfo(2) ne by simp
qed

lemma split_no_sep: "sep \<notin> set s \<Longrightarrow> split sep s = [s]"
  by (induction s) auto

lemma split_ne: "split sep s \<noteq> []"
  by (induction s) (auto split: list.splits)

lemma split_at_sep: "sep \<notin> set s \<Longrightarrow> split sep (s @ sep # t) = s # split sep t"
  by (induction s) auto

lemma drop_trailing:
  assumes "xs \<noteq> []" and "\<not> P (last xs)"
  shows "rev (dropWhile P (rev (xs @ ys))) = xs @ rev (dropWhile P (rev ys))"
proof -
  have "dropWhile P (rev ys @ rev xs) = dropWhile P (rev ys) @ rev xs"
  proof (cases "\<forall>y\<in>set (rev ys). P y")
    case True
    then have "dropWhile P (rev ys @ rev xs) = dropWhile P (rev xs)"
      by (intro dropWhile_append2) auto
    moreover have "dropWhile P (rev xs) = rev xs"
      using assms by (cases xs rule: rev_cases) auto
    moreover have "dropWhile P (rev ys) = []" using True by simp
    ultimately show ?thesis by simp
  next
    case False
    then obtain y where "y \<in> set (rev ys)" and "\<not> P y" by blast
    then show ?thesis by (simp add: dropWhile_append1)
  qed
  then show ?thesis by simp
qed

text \<open>What is left of a tail that starts with a space is empty or starts with a space.\<close>

lemma trailing_prefix:
  "rev (dropWhile P (rev xs)) @ rev (takeWhile P (rev xs)) = xs"
proof -
  have "rev (takeWhile P (rev xs) @ dropWhile P (rev xs)) = rev (rev xs)"
    by (simp only: takeWhile_dropWhile_id)
  then show ?thesis by (simp only: rev_append rev_rev_ident)
qed

lemma trailing_starts:
  "rev (dropWhile P (rev (c # ys))) = [] \<or> (\<exists>t. rev (dropWhile P (rev (c # ys))) = c # t)"
proof (cases "rev (dropWhile P (rev (c # ys)))")
  case Nil
  then show ?thesis by (simp only: simp_thms)
next
  case (Cons d t)
  have "rev (dropWhile P (rev (c # ys))) @ rev (takeWhile P (rev (c # ys))) = c # ys"
    by (rule trailing_prefix)
  then have "d = c" unfolding Cons by simp
  with Cons show ?thesis by blast
qed

lemma third_word:
  assumes "0x20 \<notin> set w1" and "0x20 \<notin> set w2" and "0x20 \<notin> set w3"
    and "tail = [] \<or> (\<exists>t. tail = 0x20 # t)"
  shows "at_index (split 0x20 (w1 @ 0x20 # w2 @ 0x20 # w3 @ tail)) 2 = Some w3"
proof -
  from assms(4) have "\<exists>ws. split 0x20 (w3 @ tail) = w3 # ws"
  proof
    assume "tail = []"
    then show ?thesis using assms(3) by (simp add: split_no_sep)
  next
    assume "\<exists>t. tail = 0x20 # t"
    then obtain t where "tail = 0x20 # t" ..
    then show ?thesis using assms(3) by (simp add: split_at_sep)
  qed
  then obtain ws where "split 0x20 (w3 @ tail) = w3 # ws" ..
  then have "split 0x20 (w1 @ 0x20 # w2 @ 0x20 # w3 @ tail) = w1 # w2 # w3 # ws"
    using assms(1,2) by (simp add: split_at_sep)
  then show ?thesis by (simp add: at_index_def)
qed

lemma trim_words:
  assumes "w \<noteq> []" and "\<not> is_js_whitespace (hd w)" and "t \<noteq> []" and "\<not> is_js_whitespace (last t)"
  shows "trim (w @ m @ t @ tail) = w @ m @ t @ rev (dropWhile is_js_whitespace (rev tail))"
proof -
  from assms(1,2) have "dropWhile is_js_whitespace (w @ m @ t @ tail) = w @ m @ t @ tail"
    by (cases w) simp_all
  moreover have "rev (dropWhile is_js_whitespace (rev ((w @ m @ t) @ tail)))
      = (w @ m @ t) @ rev (dropWhile is_js_whitespace (rev tail))"
    using assms(3,4) by (intro drop_trailing) simp_all
  ultimately show ?thesis by (simp add: trim_def)
qed

lemma line_arg_words:
  assumes "ascii w1" and "ascii w2" and "ascii tok" and "ascii tail"
    and "w1 \<noteq> []" and "\<not> is_js_whitespace (hd (js w1))"
    and "0x20 \<notin> set (js w1)" and "0x20 \<notin> set (js w2)"
    and "tok \<noteq> []" and "\<forall>c\<in>set (js tok). \<not> is_js_whitespace c"
    and "tail = CRLF \<or> (\<exists>rest. tail = CHR '' '' # rest)"
  shows "line_arg (w1 @ '' '' @ w2 @ '' '' @ tok @ tail) = Some (js tok)"
proof -
  let ?rest = "rev (dropWhile is_js_whitespace (rev (js tail)))"
  have "ascii (w1 @ '' '' @ w2 @ '' '' @ tok @ tail)"
    using assms(1-4) by (simp add: ascii_def)
  then have d: "decoder_decode (w1 @ '' '' @ w2 @ '' '' @ tok @ tail)
      = js w1 @ (0x20 # js w2 @ [0x20]) @ js tok @ js tail"
    by (simp add: decoder_decode_ascii) (simp add: js_def)
  have nt: "js tok \<noteq> []" using assms(9) by (simp add: js_def)
  then have "last (js tok) \<in> set (js tok)" by (rule last_in_set)
  then have lt: "\<not> is_js_whitespace (last (js tok))" using assms(10) by blast
  have nw: "js w1 \<noteq> []" using assms(5) by (simp add: js_def)
  have t: "trim (js w1 @ (0x20 # js w2 @ [0x20]) @ js tok @ js tail)
      = js w1 @ (0x20 # js w2 @ [0x20]) @ js tok @ ?rest"
    using nw assms(6) nt lt by (rule trim_words)
  have sp: "0x20 \<notin> set (js tok)"
  proof
    assume "0x20 \<in> set (js tok)"
    with assms(10) have "\<not> is_js_whitespace 0x20" by blast
    then show False by (simp add: is_js_whitespace_def)
  qed
  have tail: "?rest = [] \<or> (\<exists>t. ?rest = 0x20 # t)"
    using assms(11)
  proof
    assume "tail = CRLF"
    then show ?thesis by (simp add: CRLF_def js_def is_js_whitespace_def)
  next
    assume "\<exists>rest. tail = CHR '' '' # rest"
    then obtain rest where "tail = CHR '' '' # rest" ..
    then have "js tail = 0x20 # js rest" by (simp add: js_def)
    then show ?thesis using trailing_starts [of is_js_whitespace "0x20" "js rest"] by simp
  qed
  have "at_index (split 0x20 (js w1 @ 0x20 # js w2 @ 0x20 # js tok @ ?rest)) 2 = Some (js tok)"
    using assms(7,8) sp tail by (rule third_word)
  then show ?thesis unfolding line_arg_def d t by simp
qed

lemma word_facts:
  "ascii ''AUTHINFO''" "ascii ''USER''" "ascii ''PASS''"
  "''AUTHINFO'' \<noteq> []" "\<not> is_js_whitespace (hd (js ''AUTHINFO''))"
  "0x20 \<notin> set (js ''AUTHINFO'')" "0x20 \<notin> set (js ''USER'')" "0x20 \<notin> set (js ''PASS'')"
  by (simp_all add: ascii_def js_def is_js_whitespace_def)

lemma line_arg_PASS:
  assumes "token tok" and "ascii tail" and "tail = CRLF \<or> (\<exists>rest. tail = CHR '' '' # rest)"
  shows "line_arg (''AUTHINFO PASS '' @ tok @ tail) = Some (js tok)"
proof -
  have "line_arg (''AUTHINFO'' @ '' '' @ ''PASS'' @ '' '' @ tok @ tail) = Some (js tok)"
    using assms by (intro line_arg_words word_facts) (simp_all add: token_def list_all_iff js_def)
  then show ?thesis by simp
qed

lemma line_arg_USER:
  assumes "token tok" and "ascii tail" and "tail = CRLF \<or> (\<exists>rest. tail = CHR '' '' # rest)"
  shows "line_arg (''AUTHINFO USER '' @ tok @ tail) = Some (js tok)"
proof -
  have "line_arg (''AUTHINFO'' @ '' '' @ ''USER'' @ '' '' @ tok @ tail) = Some (js tok)"
    using assms by (intro line_arg_words word_facts) (simp_all add: token_def list_all_iff js_def)
  then show ?thesis by simp
qed

lemma token_ascii: "token tok \<Longrightarrow> ascii tok"
  by (simp add: token_def)

lemma token_alice: "token ''alice''" "token ''secret''" "token ''x''" "token ''wrong''"
  by (simp_all add: token_def ascii_def is_js_whitespace_def)

lemma encode_sample:
  "encoder_encode (template (user sample_options)) = ''provider''"
  "encoder_encode (template (pass sample_options)) = ''hunter2''"
  by (simp_all add: sample_options_def template_def encoder_encode_js ascii_def)

lemma init_sample:
  "RequestStream_init sample_options = \<lparr>authinfo_user = Some [], authenticated = False\<rparr>"
  by (simp add: RequestStream_init_def sample_options_def js_def)

lemma transform_USER_token:
  assumes "\<not> authenticated a" and "token name" and "ascii tail"
    and "tail = CRLF \<or> (\<exists>rest. tail = CHR '' '' # rest)"
  shows "RequestStream_transform validate options a (''AUTHINFO USER '' @ name @ tail) =
           Inr (a\<lparr>authinfo_user := Some (js name)\<rparr>,
                ''AUTHINFO USER '' @ encoder_encode (template (user options)) @ CRLF)"
proof -
  have p: "parseCommand (''AUTHINFO USER '' @ name @ tail) = Some (js ''AUTHINFO USER'')"
    using parseCommand_AUTHINFO_USER [of "'' '' @ name @ tail"] by simp
  show ?thesis
    using transform_user [OF assms(1) p] line_arg_USER [OF assms(2,3,4)] by simp
qed

lemma transform_PASS_token:
  assumes "\<not> authenticated a" and "token secret" and "ascii tail"
    and "tail = CRLF \<or> (\<exists>rest. tail = CHR '' '' # rest)"
  shows "RequestStream_transform validate options a (''AUTHINFO PASS '' @ secret @ tail) =
           (case validate (htpasswd options) (authinfo_user a) (Some (js secret)) of
              Inl e \<Rightarrow> Inl e
            | Inr ok \<Rightarrow>
                if ok
                then Inr (a\<lparr>authenticated := True\<rparr>,
                          ''AUTHINFO PASS '' @ encoder_encode (template (pass options)) @ CRLF)
                else Inr (a, ''AUTHINFO PASS '' @ secret @ tail))"
proof -
  have p: "parseCommand (''AUTHINFO PASS '' @ secret @ tail) = Some (js ''AUTHINFO PASS'')"
    using parseCommand_AUTHINFO_PASS [of "'' '' @ secret @ tail"] by simp
  show ?thesis
    using transform_pass [OF assms(1) p] line_arg_PASS [OF assms(2,3,4)] by simp
qed

lemma pipe_user_pass_rejected:
  assumes "\<not> authenticated a" and "token name" and "token secret"
    and "validate (htpasswd options) (Some (js name)) (Some (js secret)) = Inr False"
  shows "pipe (RequestStream_transform validate options) a
           [''AUTHINFO USER '' @ name @ CRLF, ''AUTHINFO PASS '' @ secret @ CRLF]
         = (a\<lparr>authinfo_user := Some (js name)\<rparr>,
            [''AUTHINFO USER '' @ encoder_encode (template (user options)) @ CRLF,
             ''AUTHINFO PASS '' @ secret @ CRLF])"
proof -
  let ?a1 = "a\<lparr>authinfo_user := Some (js name)\<rparr>"
  have u: "RequestStream_transform validate options a (''AUTHINFO USER '' @ name @ CRLF) =
      Inr (?a1, ''AUTHINFO USER '' @ encoder_encode (template (user options)) @ CRLF)"
    using assms(1,2) by (intro transform_USER_token) (simp_all add: ascii_CRLF)
  have n1: "\<not> authenticated ?a1" using assms(1) by simp
  have p: "RequestStream_transform validate options ?a1 (''AUTHINFO PASS '' @ secret @ CRLF) =
      Inr (?a1, ''AUTHINFO PASS '' @ secret @ CRLF)"
    using transform_PASS_token [OF n1 assms(3) ascii_CRLF, where validate = validate and options = options] assms(4)
    by simp
  show ?thesis by (simp only: pipe.simps u p sum.case split_conv)
qed

lemma parseCommand_GROUP: "parseCommand (''GROUP'' @ rest) = Some (js ''GROUP'')"
  unfolding parseCommand_def COMMANDS_eq
  by (simp add: js_def toUpperCase_def decoder_decode_def utf8_sequence_def strip_bom_def trim_def is_js_whitespace_def)

lemma set_js_insert: "set (js_insert x ys) = insert x (set ys)"
  by (induction ys) auto

lemma set_js_sort_acc: "set (foldl (\<lambda>acc x. js_insert x acc) acc xs) = set acc \<union> set xs"
  by (induction xs arbitrary: acc) (auto simp add: set_js_insert)

lemma set_js_sort: "set (js_sort xs) = set xs"
  by (simp add: js_sort_def set_js_sort_acc)

lemma set_push_both:
  "set (foldl (\<lambda>commands command. commands @ [f command, g command]) acc xs)
     = set acc \<union> f ` set xs \<union> g ` set xs"
  by (induction xs arbitrary: acc) auto

lemma set_COMMANDS:
  "set COMMANDS = (\<lambda>n. encoder_encode (toUpperCase n)) ` set command_names
                \<union> (\<lambda>n. encoder_encode (toLowerCase n)) ` set command_names"
  by (simp add: COMMANDS_def set_push_both set_js_sort)

lemma recognized_upper:
  "map (\<lambda>c. toUpperCase (trim (decoder_decode c))) COMMANDS = map (\<lambda>c. toUpperCase (js c)) COMMANDS"
  unfolding recognized_eq unfolding COMMANDS_eq by (simp add: js_def toUpperCase_def)

lemma recognized_upper_each:
  assumes "c \<in> set COMMANDS"
  shows "toUpperCase (trim (decoder_decode c)) = toUpperCase (js c)"
  using recognized_upper assms by (simp only: map_eq_conv)

lemma recognized_in_names:
  "list_all (\<lambda>r. r \<in> set command_names) (map (\<lambda>c. toUpperCase (trim (decoder_decode c))) COMMANDS)"
  unfolding recognized_eq by (simp add: command_names_def js_def)

lemma parseCommand_in_names:
  assumes "parseCommand line = Some r"
  shows "r \<in> set command_names"
  using parseCommand_range [OF assms] recognized_in_names unfolding list_all_iff by blast

lemma parseCommand_LIST_ACTIVE_TIMES:
  "parseCommand (''LIST ACTIVE.TIMES'' @ rest) = Some (js ''LIST ACTIVE.TIMES'')"
  unfolding parseCommand_def COMMANDS_eq
  by (simp add: js_def toUpperCase_def decoder_decode_def utf8_sequence_def strip_bom_def trim_def is_js_whitespace_def)

lemma parseCommand_list_active_times:
  "parseCommand (''list active.times'' @ rest) = Some (js ''LIST ACTIVE.TIMES'')"
  unfolding parseCommand_def COMMANDS_eq
  by (simp add: js_def toUpperCase_def decoder_decode_def utf8_sequence_def strip_bom_def trim_def is_js_whitespace_def)

lemma mod_window:
  fixes c m k :: nat
  assumes "m * k \<le> c" and "c < m * k + m"
  shows "c mod m = c - m * k"
proof -
  have c: "c = m * k + (c - m * k)" using assms(1) by simp
  have r: "c - m * k < m" using assms by arith
  have "(m * k + (c - m * k)) mod m = c - m * k" using r by simp
  with c show ?thesis by simp
qed

lemma utf8_sequence_used: "snd (utf8_sequence b bs) \<le> length bs"
  by (auto simp add: utf8_sequence_def split: list.splits)

lemma utf8_decode_length: "length (utf8_decode bs) \<le> length bs"
proof (induction bs rule: length_induct)
  case (1 bs)
  show ?case
  proof (cases bs)
    case Nil
    then show ?thesis by simp
  next
    case (Cons b rest)
    obtain cp used where u: "utf8_sequence b rest = (cp, used)" by (cases "utf8_sequence b rest")
    have "length (drop used rest) < length bs" using Cons by simp
    with 1 have "length (utf8_decode (drop used rest)) \<le> length (drop used rest)" by blast
    then show ?thesis using Cons u by simp
  qed
qed

lemma utf8_sequence_low:
  assumes "utf8_sequence b bs = (cp, used)" and "cp < 0x80"
  shows "b < 0x80 \<and> cp = b \<and> used = 0"
proof (cases "b < 0x80")
  case True
  with assms show ?thesis by (simp add: utf8_sequence_def)
next
  case False
  have two: "0x80 \<le> (b mod 0x20) * 0x40 + c mod 0x40" if "0xC2 \<le> b" "b \<le> 0xDF" for c
  proof -
    have "b mod 0x20 = b - 0x20 * 6" using that by (intro mod_window) simp_all
    with that show ?thesis by simp
  qed
  have three: "0x80 \<le> (b mod 0x10) * 0x1000 + (c mod 0x40) * 0x40 + d mod 0x40"
    if "0xE0 \<le> b" "b \<le> 0xEF" "continuation (if b = 0xE0 then 0xA0 else 0x80) (if b = 0xED then 0x9F else 0xBF) c" for c d
  proof (cases "b = 0xE0")
    case True
    with that(3) have "0xA0 \<le> c" "c \<le> 0xBF" by (simp_all add: continuation_def)
    then have "c mod 0x40 = c - 0x40 * 2" by (intro mod_window) simp_all
    with \<open>0xA0 \<le> c\<close> show ?thesis by simp
  next
    case False
    have "b mod 0x10 = b - 0x10 * 14" using that(1,2) by (intro mod_window) simp_all
    with False that(1) have "1 \<le> b mod 0x10" by simp
    then have "0x1000 \<le> (b mod 0x10) * 0x1000" by simp
    then show ?thesis by simp
  qed
  have four: "0x80 \<le> (b mod 0x08) * 0x40000 + (c mod 0x40) * 0x1000 + (d mod 0x40) * 0x40 + e mod 0x40"
    if "0xF0 \<le> b" "b \<le> 0xF4" "continuation (if b = 0xF0 then 0x90 else 0x80) (if b = 0xF4 then 0x8F else 0xBF) c" for c d e
  proof (cases "b = 0xF0")
    case True
    with that(3) have "0x90 \<le> c" "c \<le> 0xBF" by (simp_all add: continuation_def)
    then have "c mod 0x40 = c - 0x40 * 2" by (intro mod_window) simp_all
    with \<open>0x90 \<le> c\<close> have "0x10 \<le> c mod 0x40" by simp
    then have "0x10000 \<le> (c mod 0x40) * 0x1000" by simp
    then show ?thesis by simp
  next
    case False
    have "b mod 0x08 = b - 0x08 * 30" using that(1,2) by (intro mod_window) simp_all
    with False that(1) have "1 \<le> b mod 0x08" by simp
    then have "0x40000 \<le> (b mod 0x08) * 0x40000" by simp
    then show ?thesis by simp
  qed
  have "0x80 \<le> cp"
  proof (cases "0xC2 \<le> b \<and> b \<le> 0xDF")
    case True
    with False assms(1) two show ?thesis
      by (auto simp add: utf8_sequence_def split: list.splits if_splits)
  next
    case n2: False
    show ?thesis
    proof (cases "0xE0 \<le> b \<and> b \<le> 0xEF")
      case True
      with False n2 assms(1) three show ?thesis
        by (auto simp add: utf8_sequence_def split: list.splits if_splits)
    next
      case n3: False
      show ?thesis
      proof (cases "0xF0 \<le> b \<and> b \<le> 0xF4")
        case True
        with False n2 n3 assms(1) four show ?thesis
          by (auto simp add: utf8_sequence_def split: list.splits if_splits)
      next
        case n4: False
        with False n2 n3 assms(1) show ?thesis
          by (auto simp add: utf8_sequence_def split: list.splits if_splits)
      qed
    qed
  qed
  with assms(2) show ?thesis by simp
qed

lemma utf8_decode_low:
  "list_all (\<lambda>c. c < 0x80) (utf8_decode bs) \<Longrightarrow> utf8_decode bs = bs"
proof (induction bs)
  case Nil
  then show ?case by simp
next
  case (Cons b bs)
  obtain cp used where u: "utf8_sequence b bs = (cp, used)" by (cases "utf8_sequence b bs")
  with Cons.prems have "cp < 0x80" by simp
  from utf8_sequence_low [OF u this] have l: "b < 0x80" "cp = b" "used = 0" by simp_all
  with Cons u show ?case by simp
qed

lemma digits_value_1: "digits_value b f [x] = f x"
  by (simp add: digits_value_def)

lemma digits_value_2: "digits_value b f [x, y] = b * f x + f y"
  by (simp add: digits_value_def)

lemma digits_value_3: "digits_value b f [x, y, z] = b * (b * f x + f y) + f z"
  by (simp add: digits_value_def)

lemma digits_value_0: "digits_value b f [] = 0"
  by (simp add: digits_value_def)

lemmas digits_value_short = digits_value_0 digits_value_1 digits_value_2 digits_value_3

lemma unsigned_decimal_one: "unsigned_decimal [a] = Finite q \<Longrightarrow> q < 10"
  by (auto simp add: unsigned_decimal_def js_def Let_def is_exponent_indicator_def is_digit_def
      signed_integer_def decimal_digits_def scale10_def digits_value_short split: if_splits list.splits option.splits)

lemma unsigned_decimal_two: "unsigned_decimal [a, b] = Finite q \<Longrightarrow> q < 100"
  by (auto simp add: unsigned_decimal_def js_def Let_def is_exponent_indicator_def is_digit_def
      signed_integer_def decimal_digits_def scale10_def digits_value_short split: if_splits list.splits option.splits)

lemma unsigned_decimal_three:
  assumes "unsigned_decimal [a, b, c] = Finite q" and "100 \<le> q"
  shows "(is_digit a \<and> is_digit b \<and> is_digit c
            \<and> q = of_nat (100 * (a - 48) + 10 * (b - 48) + (c - 48)))
       \<or> (is_digit a \<and> is_exponent_indicator b \<and> is_digit c
            \<and> q = of_nat (a - 48) * 10 ^ (c - 48))"
  using assms
  by (auto simp add: unsigned_decimal_def js_def Let_def is_exponent_indicator_def is_digit_def
      signed_integer_def decimal_digits_def scale10_def digits_value_short split: if_splits list.splits option.splits)

lemma last_digit:
  fixes m z :: nat
  assumes "z \<le> 9"
  shows "(10 * m + z) mod 10 = z" and "(10 * m + z) div 10 = m"
  using assms by simp_all

lemma three_digits:
  fixes x y z n :: nat
  assumes "y \<le> 9" and "z \<le> 9" and "100 * x + 10 * y + z = n"
  shows "x = (n div 10) div 10 \<and> y = (n div 10) mod 10 \<and> z = n mod 10"
proof -
  have n: "n = 10 * (10 * x + y) + z" using assms(3) by simp
  have z: "n mod 10 = z" unfolding n using assms(2) by (rule last_digit)
  have q: "n div 10 = 10 * x + y" unfolding n using assms(2) by (rule last_digit)
  have y: "(n div 10) mod 10 = y" unfolding q using assms(1) by (rule last_digit)
  have x: "(n div 10) div 10 = x" unfolding q using assms(1) by (rule last_digit)
  from x y z show ?thesis by simp
qed

lemma digit_cases:
  assumes "x \<le> (9::nat)"
  shows "x = 0 \<or> x = 1 \<or> x = 2 \<or> x = 3 \<or> x = 4 \<or> x = 5 \<or> x = 6 \<or> x = 7 \<or> x = 8 \<or> x = 9"
  using assms by arith

lemma exponent_keys:
  fixes x z :: nat
  assumes "x \<le> 9" and "z \<le> 9" and "x * 10 ^ z \<in> {200, 201, 281, 381, 400, 481, 482, 502}"
  shows "(x = 2 \<or> x = 4) \<and> z = 2"
  using digit_cases [OF assms(1)] digit_cases [OF assms(2)] assms(3)
  by (elim disjE) simp_all

lemma ResponseCodes_at_Some:
  assumes "ResponseCodes_at n = Some t"
  shows "\<exists>q. n = Finite q \<and> q \<in> response_keys"
  using assms
  by (cases n) (auto simp add: ResponseCodes_at_def ResponseCodes_def response_keys_def split: if_splits)

lemma non_decimal_short:
  assumes "non_decimal t = Some n" and "length t \<le> 3"
  shows "n < 16"
proof -
  from assms obtain z p d where t: "t = [z, p, d]"
    by (cases t; cases "tl t"; cases "tl (tl t)"; cases "tl (tl (tl t))")
       (auto simp add: non_decimal_def based_digits_def split: if_splits)
  show ?thesis
    using assms(1) unfolding t
    by (auto simp add: non_decimal_def based_digits_def digits_value_short hex_digit_def split: if_splits)
qed

lemma length_dropWhile_eq: "length (dropWhile P xs) = length xs \<Longrightarrow> dropWhile P xs = xs"
proof (cases xs)
  case Nil
  then show ?thesis by simp
next
  case (Cons x ys)
  assume l: "length (dropWhile P xs) = length xs"
  show ?thesis
  proof (cases "P x")
    case True
    have "length (dropWhile P ys) \<le> length ys" by (rule length_dropWhile_le)
    with True Cons l show ?thesis by simp
  next
    case False
    with Cons show ?thesis by simp
  qed
qed

lemma trim_length: "length (trim s) \<le> length s"
proof -
  have "length (trim s) \<le> length (dropWhile is_js_whitespace s)"
    unfolding trim_def using length_dropWhile_le [of is_js_whitespace "rev (dropWhile is_js_whitespace s)"]
    by simp
  also have "\<dots> \<le> length s" by (rule length_dropWhile_le)
  finally show ?thesis .
qed

lemma trim_same_length:
  assumes "length (trim s) = length s"
  shows "trim s = s"
proof -
  have a: "length (trim s) \<le> length (dropWhile is_js_whitespace s)"
    unfolding trim_def using length_dropWhile_le [of is_js_whitespace "rev (dropWhile is_js_whitespace s)"]
    by simp
  have b: "length (dropWhile is_js_whitespace s) \<le> length s" by (rule length_dropWhile_le)
  from a b assms have "length (dropWhile is_js_whitespace s) = length s" by simp
  then have d: "dropWhile is_js_whitespace s = s" by (rule length_dropWhile_eq)
  from assms have "length (dropWhile is_js_whitespace (rev s)) = length (rev s)"
    unfolding trim_def d by simp
  then have "dropWhile is_js_whitespace (rev s) = rev s" by (rule length_dropWhile_eq)
  then show ?thesis unfolding trim_def d by simp
qed

lemma digit_offset:
  assumes "is_digit a"
  obtains x where "a = 48 + x" and "x \<le> 9"
proof
  show "a = 48 + (a - 48)" using assms unfolding is_digit_def by arith
  show "a - 48 \<le> 9" using assms unfolding is_digit_def by arith
qed

lemma key_rat_nat:
  "(of_nat n :: rat) \<in> response_keys \<longleftrightarrow> n \<in> {200, 201, 281, 381, 400, 481, 482, 502}"
  unfolding response_keys_def
  by (simp only: insert_iff empty_iff of_nat_numeral [symmetric, where 'a = rat] of_nat_eq_iff)

lemma js_code_prefixes:
  "js ''200'' = [50, 48, 48]" "js ''201'' = [50, 48, 49]" "js ''281'' = [50, 56, 49]"
  "js ''381'' = [51, 56, 49]" "js ''400'' = [52, 48, 48]" "js ''481'' = [52, 56, 49]"
  "js ''482'' = [52, 56, 50]" "js ''502'' = [53, 48, 50]"
  "js ''2e2'' = [50, 101, 50]" "js ''2E2'' = [50, 69, 50]"
  "js ''4e2'' = [52, 101, 50]" "js ''4E2'' = [52, 69, 50]"
  by (simp_all add: js_def)

lemma key_digits:
  assumes "is_digit a" and "is_digit b" and "is_digit c"
    and "(of_nat (100 * (a - 48) + 10 * (b - 48) + (c - 48)) :: rat) \<in> response_keys"
  shows "[a, b, c] \<in> js ` code_prefixes"
proof -
  from assms(1) obtain x where a: "a = 48 + x" and x: "x \<le> 9" by (rule digit_offset)
  from assms(2) obtain y where b: "b = 48 + y" and y: "y \<le> 9" by (rule digit_offset)
  from assms(3) obtain z where c: "c = 48 + z" and z: "z \<le> 9" by (rule digit_offset)
  define n where "n = 100 * x + 10 * y + z"
  have d: "x = (n div 10) div 10 \<and> y = (n div 10) mod 10 \<and> z = n mod 10"
    using y z n_def [symmetric] by (rule three_digits)
  from assms(4) have "(of_nat n :: rat) \<in> response_keys"
    unfolding a b c n_def by (simp only: add_diff_cancel_left')
  then have "n \<in> {200, 201, 281, 381, 400, 481, 482, 502}"
    by (simp only: key_rat_nat)
  then consider "n = 200" | "n = 201" | "n = 281" | "n = 381"
    | "n = 400" | "n = 481" | "n = 482" | "n = 502"
    by (simp only: insert_iff empty_iff) blast
  then show ?thesis
  proof cases
    case 1
    with d have "[a, b, c] = js ''200''" unfolding a b c js_code_prefixes by simp
    then show ?thesis unfolding code_prefixes_def by (simp only: image_insert insert_iff simp_thms)
  next
    case 2
    with d have "[a, b, c] = js ''201''" unfolding a b c js_code_prefixes by simp
    then show ?thesis unfolding code_prefixes_def by (simp only: image_insert insert_iff simp_thms)
  next
    case 3
    with d have "[a, b, c] = js ''281''" unfolding a b c js_code_prefixes by simp
    then show ?thesis unfolding code_prefixes_def by (simp only: image_insert insert_iff simp_thms)
  next
    case 4
    with d have "[a, b, c] = js ''381''" unfolding a b c js_code_prefixes by simp
    then show ?thesis unfolding code_prefixes_def by (simp only: image_insert insert_iff simp_thms)
  next
    case 5
    with d have "[a, b, c] = js ''400''" unfolding a b c js_code_prefixes by simp
    then show ?thesis unfolding code_prefixes_def by (simp only: image_insert insert_iff simp_thms)
  next
    case 6
    with d have "[a, b, c] = js ''481''" unfolding a b c js_code_prefixes by simp
    then show ?thesis unfolding code_prefixes_def by (simp only: image_insert insert_iff simp_thms)
  next
    case 7
    with d have "[a, b, c] = js ''482''" unfolding a b c js_code_prefixes by simp
    then show ?thesis unfolding code_prefixes_def by (simp only: image_insert insert_iff simp_thms)
  next
    case 8
    with d have "[a, b, c] = js ''502''" unfolding a b c js_code_prefixes by simp
    then show ?thesis unfolding code_prefixes_def by (simp only: image_insert insert_iff simp_thms)
  qed
qed

lemma key_exponent:
  assumes "is_digit a" and "is_digit c"
    and "(of_nat (a - 48) * 10 ^ (c - 48) :: rat) \<in> response_keys"
  shows "(a = 50 \<or> a = 52) \<and> c = 50"
proof -
  from assms(1) obtain x where a: "a = 48 + x" and x: "x \<le> 9" by (rule digit_offset)
  from assms(2) obtain z where c: "c = 48 + z" and z: "z \<le> 9" by (rule digit_offset)
  have e: "(of_nat x * 10 ^ z :: rat) = of_nat (x * 10 ^ z)"
    by (simp only: of_nat_mult of_nat_power of_nat_numeral)
  from assms(3) have "(of_nat x * 10 ^ z :: rat) \<in> response_keys"
    unfolding a c by (simp only: add_diff_cancel_left')
  then have "(of_nat (x * 10 ^ z) :: rat) \<in> response_keys"
    by (simp only: e)
  then have k: "x * 10 ^ z \<in> {200, 201, 281, 381, 400, 481, 482, 502}"
    by (simp only: key_rat_nat)
  from x z k have "(x = 2 \<or> x = 4) \<and> z = 2" by (rule exponent_keys)
  then show ?thesis unfolding a c by auto
qed

text \<open>What \<open>Number_js\<close> does after trimming.\<close>

lemma Number_js_trimmed:
  "Number_js s =
    (case trim s of
       [] \<Rightarrow> Finite 0
     | c # cs \<Rightarrow>
         (case non_decimal (trim s) of
            Some n \<Rightarrow> Finite (of_nat n)
          | None \<Rightarrow>
              if c = 0x2B then unsigned_decimal cs
              else if c = 0x2D then negate (unsigned_decimal cs)
              else unsigned_decimal (trim s)))"
  by (simp add: Number_js_def Let_def)

lemma unsigned_decimal_empty: "unsigned_decimal [] = NaN"
  by (simp add: unsigned_decimal_def js_def Let_def)

lemma low_not_key: "q < 100 \<Longrightarrow> q \<notin> response_keys" "- q \<in> response_keys \<Longrightarrow> q < 0"
  by (auto simp add: response_keys_def)

lemma negate_Finite: "negate n = Finite q \<Longrightarrow> \<exists>p. n = Finite p \<and> q = - p"
  by (cases n) (simp_all add: negate_def)

lemma unsigned_nonneg: "unsigned_decimal s = Finite q \<Longrightarrow> 0 \<le> q"
  by (auto simp add: unsigned_decimal_def Let_def scale10_def split: if_splits option.splits)

lemma unsigned_short:
  assumes "unsigned_decimal s = Finite q" and "length s \<le> 2"
  shows "q < 100"
proof -
  from assms(2) consider "s = []" | a where "s = [a]" | a b where "s = [a, b]"
    by (cases s; cases "tl s"; cases "tl (tl s)") auto
  then show ?thesis
  proof cases
    case 1 with assms(1) show ?thesis by (simp add: unsigned_decimal_empty)
  next
    case 2 with assms(1) unsigned_decimal_one [of a q] show ?thesis by simp
  next
    case 3 with assms(1) unsigned_decimal_two [of a b q] show ?thesis by simp
  qed
qed

lemma unsigned_three_key:
  assumes "unsigned_decimal [a, b, c] = Finite q" and "q \<in> response_keys"
  shows "[a, b, c] \<in> js ` (code_prefixes \<union> exponent_prefixes)"
proof -
  from assms(2) have "100 \<le> q"
    unfolding response_keys_def by (elim insertE emptyE) simp_all
  from unsigned_decimal_three [OF assms(1) this] show ?thesis
  proof
    assume d: "is_digit a \<and> is_digit b \<and> is_digit c
        \<and> q = of_nat (100 * (a - 48) + 10 * (b - 48) + (c - 48))"
    then have k: "(of_nat (100 * (a - 48) + 10 * (b - 48) + (c - 48)) :: rat) \<in> response_keys"
      using assms(2) by (simp only:)
    from d have "is_digit a" "is_digit b" "is_digit c" by (simp_all only:)
    then have "[a, b, c] \<in> js ` code_prefixes" using k by (rule key_digits)
    then show ?thesis by (simp only: image_Un Un_iff simp_thms)
  next
    assume e: "is_digit a \<and> is_exponent_indicator b \<and> is_digit c
        \<and> q = of_nat (a - 48) * 10 ^ (c - 48)"
    then have k: "(of_nat (a - 48) * 10 ^ (c - 48) :: rat) \<in> response_keys"
      using assms(2) by (simp only:)
    from e have "is_digit a" "is_digit c" by (simp_all only:)
    then have ac: "(a = 50 \<or> a = 52) \<and> c = 50" using k by (rule key_exponent)
    from e have "b = 0x65 \<or> b = 0x45" by (simp only: is_exponent_indicator_def)
    with ac consider "a = 50" "b = 0x65" "c = 50" | "a = 50" "b = 0x45" "c = 50"
      | "a = 52" "b = 0x65" "c = 50" | "a = 52" "b = 0x45" "c = 50" by blast
    then have "[a, b, c] \<in> js ` exponent_prefixes"
    proof cases
      case 1
      then have "[a, b, c] = js ''2e2''" unfolding js_code_prefixes by simp
      then show ?thesis unfolding exponent_prefixes_def by (simp only: image_insert insert_iff simp_thms)
    next
      case 2
      then have "[a, b, c] = js ''2E2''" unfolding js_code_prefixes by simp
      then show ?thesis unfolding exponent_prefixes_def by (simp only: image_insert insert_iff simp_thms)
    next
      case 3
      then have "[a, b, c] = js ''4e2''" unfolding js_code_prefixes by simp
      then show ?thesis unfolding exponent_prefixes_def by (simp only: image_insert insert_iff simp_thms)
    next
      case 4
      then have "[a, b, c] = js ''4E2''" unfolding js_code_prefixes by simp
      then show ?thesis unfolding exponent_prefixes_def by (simp only: image_insert insert_iff simp_thms)
    qed
    then show ?thesis by (simp only: image_Un Un_iff simp_thms)
  qed
qed

lemma prefix_facts:
  assumes "w \<in> code_prefixes \<union> exponent_prefixes"
  shows "length w = 3" and "ascii w"
  using assms unfolding code_prefixes_def exponent_prefixes_def ascii_def
  by (elim UnE insertE emptyE; simp)+

lemma Number_js_key:
  assumes "length s \<le> 3" and "Number_js s = Finite q" and "q \<in> response_keys"
  shows "s \<in> js ` (code_prefixes \<union> exponent_prefixes)"
proof -
  define t where "t = trim s"
  have lt: "length t \<le> 3" using trim_length [of s] assms(1) unfolding t_def by simp
  have N: "(case t of
       [] \<Rightarrow> Finite 0
     | c # cs \<Rightarrow>
         (case non_decimal t of
            Some n \<Rightarrow> Finite (of_nat n)
          | None \<Rightarrow>
              if c = 0x2B then unsigned_decimal cs
              else if c = 0x2D then negate (unsigned_decimal cs)
              else unsigned_decimal t)) = Finite q"
    using assms(2) unfolding Number_js_trimmed t_def .
  have k0: "(0::rat) \<notin> response_keys" by (simp add: response_keys_def)
  have three: "t \<in> js ` (code_prefixes \<union> exponent_prefixes)"
  proof (cases t)
    case Nil
    with N assms(3) k0 show ?thesis by simp
  next
    case (Cons c cs)
    show ?thesis
    proof (cases "non_decimal t")
      case (Some n)
      with N Cons have "q = of_nat n" by simp
      moreover from non_decimal_short [OF Some lt] have "(of_nat n :: rat) < 100" by simp
      ultimately show ?thesis using assms(3) low_not_key(1) by blast
    next
      case None
      have lcs: "length cs \<le> 2" using lt Cons by simp
      show ?thesis
      proof (cases "c = 0x2B")
        case True
        with N Cons None have "unsigned_decimal cs = Finite q" by simp
        from unsigned_short [OF this lcs] assms(3) low_not_key(1) show ?thesis by blast
      next
        case plus: False
        show ?thesis
        proof (cases "c = 0x2D")
          case True
          with N Cons None plus have "negate (unsigned_decimal cs) = Finite q" by simp
          from negate_Finite [OF this] obtain p where p: "unsigned_decimal cs = Finite p" "q = - p"
            by blast
          from unsigned_nonneg [OF p(1)] p(2) have "q \<le> 0" by simp
          then have "q < 100" by simp
          with assms(3) low_not_key(1) show ?thesis by blast
        next
          case False
          with N Cons None plus have u: "unsigned_decimal t = Finite q" by simp
          show ?thesis
          proof (cases "length t \<le> 2")
            case True
            from unsigned_short [OF u True] assms(3) low_not_key(1) show ?thesis by blast
          next
            case False
            with lt have "length t = 3" by simp
            then obtain a b d where t3: "t = [a, b, d]"
              by (cases t; cases "tl t"; cases "tl (tl t)"; cases "tl (tl (tl t))") auto
            from u assms(3) show ?thesis unfolding t3 by (rule unsigned_three_key)
          qed
        qed
      qed
    qed
  qed
  then have "length t = 3" using prefix_facts by (auto simp add: js_def)
  with lt assms(1) trim_length [of s] have "length (trim s) = length s" unfolding t_def by simp
  then have "trim s = s" by (rule trim_same_length)
  with three show ?thesis unfolding t_def by simp
qed

lemma decoder_decode_inv:
  assumes "decoder_decode bs = js w" and "length bs \<le> length w" and "ascii w"
  shows "bs = w"
proof -
  define u where "u = utf8_decode (map of_char bs)"
  have s: "strip_bom u = js w" using assms(1) unfolding decoder_decode_def u_def .
  have lu: "length u \<le> length bs"
    using utf8_decode_length [of "map of_char bs"] unfolding u_def by simp
  have "u = js w"
  proof (cases u)
    case Nil
    with s show ?thesis by (simp add: strip_bom_def)
  next
    case (Cons c cs)
    show ?thesis
    proof (cases "c = 0xFEFF")
      case True
      with s Cons have "cs = js w" by (simp add: strip_bom_def)
      then have "length u = Suc (length w)" using Cons by (simp add: js_def)
      with lu assms(2) show ?thesis by simp
    next
      case False
      with s Cons show ?thesis by (simp add: strip_bom_def)
    qed
  qed
  moreover have "list_all (\<lambda>c. c < 0x80) (js w)"
    using assms(3) by (simp add: ascii_def js_def list_all_iff)
  ultimately have "list_all (\<lambda>c. c < 0x80) (utf8_decode (map of_char bs))"
    unfolding u_def by simp
  then have "utf8_decode (map of_char bs) = map of_char bs" by (rule utf8_decode_low)
  with \<open>u = js w\<close> have "map of_char bs = (map of_char w :: nat list)"
    unfolding u_def js_def by simp
  then show ?thesis by (simp add: inj_map_eq_map inj_on_def)
qed

lemma decoder_decode_length: "length (decoder_decode bs) \<le> length bs"
proof -
  have "length (strip_bom u) \<le> length u" for u
    by (cases u) (simp_all add: strip_bom_def)
  from this [of "utf8_decode (map of_char bs)"] utf8_decode_length [of "map of_char bs"]
  show ?thesis unfolding decoder_decode_def by simp
qed

lemma ResponseCodes_at_values:
  "ResponseCodes_at (Finite 200) = Some (js ''Service available, posting allowed'')"
  "ResponseCodes_at (Finite 201) = Some (js ''Service available, posting prohibited'')"
  "ResponseCodes_at (Finite 281) = Some (js ''Authentication accepted'')"
  "ResponseCodes_at (Finite 381) = Some (js ''Password required'')"
  "ResponseCodes_at (Finite 400) = Some (js ''Service temporarily unavailable'')"
  "ResponseCodes_at (Finite 481) = Some (js ''Authentication failed/rejected'')"
  "ResponseCodes_at (Finite 482) = Some (js ''Authentication commands issued out of sequence'')"
  "ResponseCodes_at (Finite 502) = Some (js ''Service permanently unavailable'')"
  by (simp_all add: ResponseCodes_at_def ResponseCodes_def)

lemmas Number_defs = Number_js_def trim_def is_js_whitespace_def non_decimal_def
  unsigned_decimal_def is_exponent_indicator_def is_digit_def signed_integer_def
  decimal_digits_def digits_value_def scale10_def js_def Let_def

lemma Number_js_values:
  "Number_js (js ''200'') = Finite 200" "Number_js (js ''201'') = Finite 201"
  "Number_js (js ''281'') = Finite 281" "Number_js (js ''381'') = Finite 381"
  "Number_js (js ''400'') = Finite 400" "Number_js (js ''481'') = Finite 481"
  "Number_js (js ''482'') = Finite 482" "Number_js (js ''502'') = Finite 502"
  "Number_js (js ''2e2'') = Finite 200" "Number_js (js ''2E2'') = Finite 200"
  "Number_js (js ''4e2'') = Finite 400" "Number_js (js ''4E2'') = Finite 400"
  by (simp_all add: Number_defs)

lemma ResponseStream_transform_rewrite:
  assumes "take 3 line = w" and "ascii w" and "Number_js (js w) = n"
    and "ResponseCodes_at n = Some (js text)" and "text \<noteq> []" and "ascii text"
  shows "ResponseStream_transform line = w @ '' '' @ text @ CRLF"
proof -
  have d: "decoder_decode (take 3 line) = js w"
    unfolding assms(1) using assms(2) by (rule decoder_decode_ascii)
  have t: "js text \<noteq> []" using assms(5) by (simp add: js_def)
  have sp: "ascii '' ''" by (simp add: ascii_def)
  have "encoder_encode (js w @ js '' '' @ js text @ js CRLF) = w @ '' '' @ text @ CRLF"
    using assms(2,6) sp by (simp add: encoder_encode_append encoder_encode_js ascii_CRLF)
  then show ?thesis
    unfolding ResponseStream_transform_def d assms(3) assms(4) Let_def
    using t by (simp only: option.case simp_thms if_True)
qed

lemma ResponseStream_transform_keep:
  assumes "take 3 line \<notin> code_prefixes \<union> exponent_prefixes"
  shows "ResponseStream_transform line = line"
proof (cases "ResponseCodes_at (Number_js (decoder_decode (take 3 line)))")
  case None
  then show ?thesis by (simp add: ResponseStream_transform_def Let_def)
next
  case (Some t)
  from ResponseCodes_at_Some [OF Some] obtain q
    where q: "Number_js (decoder_decode (take 3 line)) = Finite q" "q \<in> response_keys" by blast
  have "length (decoder_decode (take 3 line)) \<le> 3"
    using decoder_decode_length [of "take 3 line"] by simp
  from Number_js_key [OF this q]
  obtain w where w: "w \<in> code_prefixes \<union> exponent_prefixes"
    and dw: "decoder_decode (take 3 line) = js w" by blast
  from prefix_facts [OF w] have lw: "length w = 3" and aw: "ascii w" .
  have "length (take 3 line) \<le> length w" unfolding lw by simp
  from decoder_decode_inv [OF dw this aw] have "take 3 line = w" .
  with w assms show ?thesis by simp
qed

lemma texts_ok:
  "ascii ''Service available, posting allowed''" "ascii ''Service available, posting prohibited''"
  "ascii ''Authentication accepted''" "ascii ''Password required''"
  "ascii ''Service temporarily unavailable''" "ascii ''Authentication failed/rejected''"
  "ascii ''Authentication commands issued out of sequence''" "ascii ''Service permanently unavailable''"
  by (simp_all add: ascii_def)

lemma codes_ok:
  "ascii ''200''" "ascii ''201''" "ascii ''281''" "ascii ''381''" "ascii ''400''" "ascii ''481''"
  "ascii ''482''" "ascii ''502''" "ascii ''2e2''" "ascii ''2E2''" "ascii ''4e2''" "ascii ''4E2''"
  by (simp_all add: ascii_def)

lemma ResponseStream_transform_status:
  "take 3 line = ''200'' \<Longrightarrow> ResponseStream_transform line = ''200'' @ '' '' @ ''Service available, posting allowed'' @ CRLF"
  "take 3 line = ''201'' \<Longrightarrow> ResponseStream_transform line = ''201'' @ '' '' @ ''Service available, posting prohibited'' @ CRLF"
  "take 3 line = ''281'' \<Longrightarrow> ResponseStream_transform line = ''281'' @ '' '' @ ''Authentication accepted'' @ CRLF"
  "take 3 line = ''381'' \<Longrightarrow> ResponseStream_transform line = ''381'' @ '' '' @ ''Password required'' @ CRLF"
  "take 3 line = ''400'' \<Longrightarrow> ResponseStream_transform line = ''400'' @ '' '' @ ''Service temporarily unavailable'' @ CRLF"
  "take 3 line = ''481'' \<Longrightarrow> ResponseStream_transform line = ''481'' @ '' '' @ ''Authentication failed/rejected'' @ CRLF"
  "take 3 line = ''482'' \<Longrightarrow> ResponseStream_transform line = ''482'' @ '' '' @ ''Authentication commands issued out of sequence'' @ CRLF"
  "take 3 line = ''502'' \<Longrightarrow> ResponseStream_transform line = ''502'' @ '' '' @ ''Service permanently unavailable'' @ CRLF"
  "take 3 line = ''2e2'' \<Longrightarrow> ResponseStream_transform line = ''2e2'' @ '' '' @ ''Service available, posting allowed'' @ CRLF"
  "take 3 line = ''2E2'' \<Longrightarrow> ResponseStream_transform line = ''2E2'' @ '' '' @ ''Service available, posting allowed'' @ CRLF"
  "take 3 line = ''4e2'' \<Longrightarrow> ResponseStream_transform line = ''4e2'' @ '' '' @ ''Service temporarily unavailable'' @ CRLF"
  "take 3 line = ''4E2'' \<Longrightarrow> ResponseStream_transform line = ''4E2'' @ '' '' @ ''Service temporarily unavailable'' @ CRLF"
  by (erule ResponseStream_transform_rewrite;
      (rule codes_ok texts_ok Number_js_values ResponseCodes_at_values | simp))+

lemma decimal3_values:
  "decimal3 200 = ''200''" "decimal3 201 = ''201''" "decimal3 281 = ''281''"
  "decimal3 381 = ''381''" "decimal3 400 = ''400''" "decimal3 481 = ''481''"
  "decimal3 482 = ''482''" "decimal3 502 = ''502''"
  by (simp_all add: decimal3_def char_of_numeral)

lemma ResponseCodes_mem:
  "(code, text) \<in> set ResponseCodes \<longleftrightarrow>
      code = 200 \<and> text = ''Service available, posting allowed''
    \<or> code = 201 \<and> text = ''Service available, posting prohibited''
    \<or> code = 281 \<and> text = ''Authentication accepted''
    \<or> code = 381 \<and> text = ''Password required''
    \<or> code = 400 \<and> text = ''Service temporarily unavailable''
    \<or> code = 481 \<and> text = ''Authentication failed/rejected''
    \<or> code = 482 \<and> text = ''Authentication commands issued out of sequence''
    \<or> code = 502 \<and> text = ''Service permanently unavailable''"
  unfolding ResponseCodes_def by (simp only: list.set insert_iff empty_iff prod.inject simp_thms)

lemma ResponseStream_transform_code:
  assumes "(code, text) \<in> set ResponseCodes" and "take 3 line = decimal3 code"
  shows "ResponseStream_transform line = decimal3 code @ '' '' @ text @ CRLF"
proof -
  from assms(1) consider
      "code = 200" "text = ''Service available, posting allowed''"
    | "code = 201" "text = ''Service available, posting prohibited''"
    | "code = 281" "text = ''Authentication accepted''"
    | "code = 381" "text = ''Password required''"
    | "code = 400" "text = ''Service temporarily unavailable''"
    | "code = 481" "text = ''Authentication failed/rejected''"
    | "code = 482" "text = ''Authentication commands issued out of sequence''"
    | "code = 502" "text = ''Service permanently unavailable''"
    unfolding ResponseCodes_mem by (elim disjE conjE)
  then show ?thesis
  proof cases
    case 1
    from assms(2) show ?thesis unfolding 1 decimal3_values by (rule ResponseStream_transform_status)
  next
    case 2
    from assms(2) show ?thesis unfolding 2 decimal3_values by (rule ResponseStream_transform_status)
  next
    case 3
    from assms(2) show ?thesis unfolding 3 decimal3_values by (rule ResponseStream_transform_status)
  next
    case 4
    from assms(2) show ?thesis unfolding 4 decimal3_values by (rule ResponseStream_transform_status)
  next
    case 5
    from assms(2) show ?thesis unfolding 5 decimal3_values by (rule ResponseStream_transform_status)
  next
    case 6
    from assms(2) show ?thesis unfolding 6 decimal3_values by (rule ResponseStream_transform_status)
  next
    case 7
    from assms(2) show ?thesis unfolding 7 decimal3_values by (rule ResponseStream_transform_status)
  next
    case 8
    from assms(2) show ?thesis unfolding 8 decimal3_values by (rule ResponseStream_transform_status)
  qed
qed

lemma response_pipe_map: "response_pipe lines = map ResponseStream_transform lines"
  unfolding response_pipe_def by (induction lines) (auto split: prod.splits)

lemma decimal3_table: "decimal3 ` fst ` set ResponseCodes = code_prefixes"
  unfolding ResponseCodes_def code_prefixes_def
  by (simp only: list.set image_insert image_empty fst_conv decimal3_values)

section \<open>The claims\<close>

text \<open>
  C1. In a session that is not authenticated, the lines AUTHINFO USER alice and
  AUTHINFO PASS secret, where the store validates the pair, are forwarded as
  AUTHINFO USER and AUTHINFO PASS with the operator's user name and password, whatever
  the client sent; the client's name is recorded and the session becomes
  authenticated. Proved for every name and password that are tokens.
\<close>

theorem C1_substitution:
  assumes "\<not> authenticated a" and "token name" and "token secret"
    and "validate (htpasswd options) (Some (js name)) (Some (js secret)) = Inr True"
  shows "pipe (RequestStream_transform validate options) a
           [''AUTHINFO USER '' @ name @ CRLF, ''AUTHINFO PASS '' @ secret @ CRLF]
         = (a\<lparr>authinfo_user := Some (js name), authenticated := True\<rparr>,
            [''AUTHINFO USER '' @ encoder_encode (template (user options)) @ CRLF,
             ''AUTHINFO PASS '' @ encoder_encode (template (pass options)) @ CRLF])"
proof -
  let ?a1 = "a\<lparr>authinfo_user := Some (js name)\<rparr>"
  have u: "RequestStream_transform validate options a (''AUTHINFO USER '' @ name @ CRLF) =
      Inr (?a1, ''AUTHINFO USER '' @ encoder_encode (template (user options)) @ CRLF)"
    using assms(1,2) by (intro transform_USER_token) (simp_all add: ascii_CRLF)
  have n1: "\<not> authenticated ?a1" using assms(1) by simp
  have p: "RequestStream_transform validate options ?a1 (''AUTHINFO PASS '' @ secret @ CRLF) =
      Inr (?a1\<lparr>authenticated := True\<rparr>,
           ''AUTHINFO PASS '' @ encoder_encode (template (pass options)) @ CRLF)"
    using transform_PASS_token [OF n1 assms(3) ascii_CRLF, where validate = validate and options = options] assms(4)
    by simp
  show ?thesis by (simp only: pipe.simps u p sum.case split_conv)
qed

theorem C1_substitution_witness:
  "request_pipe store_alice sample_options
     [''AUTHINFO USER alice'' @ CRLF, ''AUTHINFO PASS secret'' @ CRLF]
   = (\<lparr>authinfo_user = Some (js ''alice''), authenticated = True\<rparr>,
      [''AUTHINFO USER provider'' @ CRLF, ''AUTHINFO PASS hunter2'' @ CRLF])"
proof -
  have h1: "\<not> authenticated (RequestStream_init sample_options)"
    by (simp add: init_sample)
  have h4: "store_alice (htpasswd sample_options) (Some (js ''alice'')) (Some (js ''secret'')) = Inr True"
    by (simp add: store_alice_def)
  show ?thesis
    using C1_substitution [where validate = store_alice and options = sample_options,
            OF h1 token_alice(1) token_alice(2) h4]
    unfolding request_pipe_def encode_sample init_sample by simp
qed

text \<open>
  C2. When the store rejects (alice, secret) the session stays unauthenticated and the
  AUTHINFO PASS line is forwarded as the client sent it, but the AUTHINFO USER line
  was already rewritten when it arrived: the provider is sent the operator's user
  name with the client's password, not the client's two lines.
\<close>

theorem C2_user_line_rewritten_before_validation:
  "request_pipe store_nobody sample_options
     [''AUTHINFO USER alice'' @ CRLF, ''AUTHINFO PASS secret'' @ CRLF]
   = (\<lparr>authinfo_user = Some (js ''alice''), authenticated = False\<rparr>,
      [''AUTHINFO USER provider'' @ CRLF, ''AUTHINFO PASS secret'' @ CRLF])"
proof -
  have h1: "\<not> authenticated (RequestStream_init sample_options)"
    by (simp add: init_sample)
  have h4: "store_nobody (htpasswd sample_options) (Some (js ''alice'')) (Some (js ''secret'')) = Inr False"
    by (simp add: store_nobody_def)
  show ?thesis
    using pipe_user_pass_rejected [where validate = store_nobody and options = sample_options,
            OF h1 token_alice(1) token_alice(2) h4]
    unfolding request_pipe_def encode_sample init_sample by simp
qed

text \<open>
  C3. In an authenticated session every line, AUTHINFO lines included, is forwarded
  unchanged and the session stays authenticated: the transform returns the state it
  was given, so nothing sets \<open>authenticated\<close> back to false. A session without a
  credential store starts authenticated.
\<close>

theorem C3_authenticated_is_terminal:
  "(authenticated a \<longrightarrow> RequestStream_transform validate options a line = Inr (a, line))
   \<and> (authenticated a \<longrightarrow> pipe (RequestStream_transform validate options) a lines = (a, lines))
   \<and> (htpasswd options = None \<longrightarrow>
        authenticated (RequestStream_init options)
        \<and> request_pipe validate options lines = (RequestStream_init options, lines))"
  by (simp add: transform_authenticated pipe_authenticated request_pipe_def RequestStream_init_def)

theorem C3_authenticated_is_terminal_witness:
  "pipe (RequestStream_transform store_nobody sample_options)
        \<lparr>authinfo_user = Some (js ''alice''), authenticated = True\<rparr>
        [''AUTHINFO USER bob'' @ CRLF, ''AUTHINFO PASS x'' @ CRLF, ''QUIT'' @ CRLF]
     = (\<lparr>authinfo_user = Some (js ''alice''), authenticated = True\<rparr>,
        [''AUTHINFO USER bob'' @ CRLF, ''AUTHINFO PASS x'' @ CRLF, ''QUIT'' @ CRLF])
   \<and> request_pipe store_nobody (sample_options\<lparr>htpasswd := None\<rparr>)
        [''AUTHINFO USER bob'' @ CRLF, ''AUTHINFO PASS x'' @ CRLF]
     = (RequestStream_init (sample_options\<lparr>htpasswd := None\<rparr>),
        [''AUTHINFO USER bob'' @ CRLF, ''AUTHINFO PASS x'' @ CRLF])"
  using C3_authenticated_is_terminal
          [of "\<lparr>authinfo_user = Some (js ''alice''), authenticated = True\<rparr>"
              store_nobody sample_options "[]"
              "[''AUTHINFO USER bob'' @ CRLF, ''AUTHINFO PASS x'' @ CRLF, ''QUIT'' @ CRLF]"]
        C3_authenticated_is_terminal
          [of "\<lparr>authinfo_user = Some (js ''alice''), authenticated = True\<rparr>"
              store_nobody "sample_options\<lparr>htpasswd := None\<rparr>" "[]"
              "[''AUTHINFO USER bob'' @ CRLF, ''AUTHINFO PASS x'' @ CRLF]"]
  by simp

text \<open>
  C4. The response stream reads the first three bytes with \<^verbatim>\<open>Number\<close>, which
  takes more than three decimal digits for a number: \<open>2e2\<close> is 200 to it. A line
  that begins with \<open>2e2\<close> is therefore rewritten, and the new line begins with
  \<open>2e2\<close>, not with a status code. (Lemmas
  \<open>ResponseStream_transform_code\<close> and \<open>ResponseStream_transform_keep\<close> show
  that for every line that does not begin with \<open>2e2\<close>, \<open>2E2\<close>, \<open>4e2\<close>
  or \<open>4E2\<close> the claim holds.)
\<close>

theorem C4_exponent_notation_read_as_code:
  "ResponseStream_transform (''2e2 x'' @ CRLF) = ''2e2 Service available, posting allowed'' @ CRLF"
  using ResponseStream_transform_status(9) [of "''2e2 x'' @ CRLF"] by simp

text \<open>
  C5 (amended). \<open>parseCommand\<close> compares the first bytes of the line with the
  table, which holds every command name in two spellings, all upper case and all
  lower case. It answers null exactly when no entry of the table is a prefix of the
  line, and otherwise the upper-case name of the longest entry that is: a line that
  begins LIST ACTIVE.TIMES is reported as LIST ACTIVE.TIMES. The answer is always a
  name of the vocabulary.
\<close>

theorem C5_longest_registered_spelling:
  "(parseCommand line = None \<longleftrightarrow> (\<forall>c\<in>set COMMANDS. take (length c) line \<noteq> c))
   \<and> (\<forall>c\<in>set COMMANDS.
         take (length c) line = c
         \<and> (\<forall>d\<in>set COMMANDS. take (length d) line = d \<longrightarrow> length d \<le> length c)
         \<longrightarrow> parseCommand line = Some (toUpperCase (js c)))
   \<and> (\<forall>r. parseCommand line = Some r \<longrightarrow> r \<in> set command_names)
   \<and> set COMMANDS = (\<lambda>n. encoder_encode (toUpperCase n)) ` set command_names
                    \<union> (\<lambda>n. encoder_encode (toLowerCase n)) ` set command_names
   \<and> parseCommand (''LIST ACTIVE.TIMES'' @ rest) = Some (js ''LIST ACTIVE.TIMES'')
   \<and> parseCommand (''list active.times'' @ rest) = Some (js ''LIST ACTIVE.TIMES'')"
proof -
  have longest: "parseCommand line = Some (toUpperCase (js c))"
    if c: "c \<in> set COMMANDS" and m: "take (length c) line = c"
      and l: "\<forall>d\<in>set COMMANDS. take (length d) line = d \<longrightarrow> length d \<le> length c" for c
  proof -
    from m have e: "every_byte c line" by (simp only: every_byte_take)
    from l have "\<forall>d\<in>set COMMANDS. every_byte d line \<longrightarrow> length d \<le> length c"
      by (simp only: every_byte_take)
    from parseCommand_longest [OF c e this] show ?thesis
      by (simp only: recognized_upper_each [OF c])
  qed
  show ?thesis
    using parseCommand_None [of line] longest parseCommand_in_names [of line] set_COMMANDS
      parseCommand_LIST_ACTIVE_TIMES [of rest] parseCommand_list_active_times [of rest]
    by blast
qed

theorem C5_longest_registered_spelling_witness:
  "parseCommand (''LISTGROUP misc.test'' @ CRLF) = Some (js ''LISTGROUP'')
   \<and> parseCommand (''LIST ACTIVE x'' @ CRLF) = Some (js ''LIST ACTIVE'')
   \<and> parseCommand (''XOVER 1-10'' @ CRLF) = None"
proof -
  have a: "''LISTGROUP'' \<in> set COMMANDS \<and> take (length ''LISTGROUP'') (''LISTGROUP misc.test'' @ CRLF) = ''LISTGROUP''
       \<and> (\<forall>d\<in>set COMMANDS. take (length d) (''LISTGROUP misc.test'' @ CRLF) = d \<longrightarrow> length d \<le> length ''LISTGROUP'')"
    unfolding COMMANDS_eq by (simp add: CRLF_def)
  have b: "''LIST ACTIVE'' \<in> set COMMANDS \<and> take (length ''LIST ACTIVE'') (''LIST ACTIVE x'' @ CRLF) = ''LIST ACTIVE''
       \<and> (\<forall>d\<in>set COMMANDS. take (length d) (''LIST ACTIVE x'' @ CRLF) = d \<longrightarrow> length d \<le> length ''LIST ACTIVE'')"
    unfolding COMMANDS_eq by (simp add: CRLF_def)
  have c: "\<forall>c\<in>set COMMANDS. take (length c) (''XOVER 1-10'' @ CRLF) \<noteq> c"
    unfolding COMMANDS_eq by (simp add: CRLF_def)
  have u: "toUpperCase (js ''LISTGROUP'') = js ''LISTGROUP''" "toUpperCase (js ''LIST ACTIVE'') = js ''LIST ACTIVE''"
    by (simp_all add: toUpperCase_def js_def)
  have "parseCommand (''LISTGROUP misc.test'' @ CRLF) = Some (toUpperCase (js ''LISTGROUP''))"
    using C5_longest_registered_spelling [of "''LISTGROUP misc.test'' @ CRLF" "[]"] a by blast
  moreover have "parseCommand (''LIST ACTIVE x'' @ CRLF) = Some (toUpperCase (js ''LIST ACTIVE''))"
    using C5_longest_registered_spelling [of "''LIST ACTIVE x'' @ CRLF" "[]"] b by blast
  moreover have "parseCommand (''XOVER 1-10'' @ CRLF) = None"
    using C5_longest_registered_spelling [of "''XOVER 1-10'' @ CRLF" "[]"] c by blast
  ultimately show ?thesis by (simp only: u simp_thms)
qed

text \<open>
  C5 as stated fails on mixed case: \<open>Quit\<close> is QUIT up to case and is not
  recognized, and \<open>LIST active.times\<close> is reported as plain LIST.
\<close>

theorem C5_mixed_case_counterexample:
  "parseCommand (''Quit'' @ CRLF) = None
   \<and> toUpperCase (decoder_decode ''Quit'') = js ''QUIT''
   \<and> parseCommand (''QUIT'' @ CRLF) = Some (js ''QUIT'')
   \<and> parseCommand (''LIST active.times'' @ CRLF) = Some (js ''LIST'')"
  unfolding parseCommand_def COMMANDS_eq
  by (simp add: CRLF_def js_def toUpperCase_def decoder_decode_def utf8_sequence_def strip_bom_def trim_def is_js_whitespace_def)

text \<open>
  C6. A line that the recognizer does not report as AUTHINFO USER or AUTHINFO PASS is
  forwarded byte for byte and leaves the authentication state as it was.
\<close>

theorem C6_other_lines_pass_unchanged:
  assumes "parseCommand line \<noteq> Some (js ''AUTHINFO USER'')"
    and "parseCommand line \<noteq> Some (js ''AUTHINFO PASS'')"
  shows "RequestStream_transform validate options a line = Inr (a, line)"
  using assms by (rule transform_other)

theorem C6_other_lines_pass_unchanged_witness:
  "RequestStream_transform store_alice sample_options
      \<lparr>authinfo_user = Some [], authenticated = False\<rparr> (''GROUP misc.test'' @ CRLF)
   = Inr (\<lparr>authinfo_user = Some [], authenticated = False\<rparr>, ''GROUP misc.test'' @ CRLF)"
proof -
  have p: "parseCommand (''GROUP misc.test'' @ CRLF) = Some (js ''GROUP'')"
    using parseCommand_GROUP [of "'' misc.test'' @ CRLF"] by simp
  have h1: "parseCommand (''GROUP misc.test'' @ CRLF) \<noteq> Some (js ''AUTHINFO USER'')"
    unfolding p by (simp add: js_def)
  have h2: "parseCommand (''GROUP misc.test'' @ CRLF) \<noteq> Some (js ''AUTHINFO PASS'')"
    unfolding p by (simp add: js_def)
  show ?thesis using C6_other_lines_pass_unchanged [OF h1 h2] .
qed

text \<open>
  C7 (amended). In a session with a credential store and no AUTHINFO USER line so
  far, the claimed user name is the empty string; an AUTHINFO PASS x line is
  forwarded as it came and the session stays unauthenticated, provided the store
  answers and rejects the pair of the empty user name and x. The transform has no
  check of its own for a password that comes first: what happens is the store's
  answer for the empty name.
\<close>

theorem C7_pass_before_user:
  assumes "\<not> authenticated (RequestStream_init options)" and "token x"
    and "validate (htpasswd options) (Some []) (Some (js x)) = Inr False"
  shows "request_pipe validate options [''AUTHINFO PASS '' @ x @ CRLF]
         = (RequestStream_init options, [''AUTHINFO PASS '' @ x @ CRLF])
       \<and> authinfo_user (RequestStream_init options) = Some []"
proof -
  have u: "authinfo_user (RequestStream_init options) = Some []"
    by (simp add: RequestStream_init_def)
  have "RequestStream_transform validate options (RequestStream_init options)
          (''AUTHINFO PASS '' @ x @ CRLF)
        = Inr (RequestStream_init options, ''AUTHINFO PASS '' @ x @ CRLF)"
    using transform_PASS_token [OF assms(1,2) ascii_CRLF, where validate = validate and options = options]
      assms(3) u by simp
  then show ?thesis
    unfolding request_pipe_def by (simp only: pipe.simps sum.case split_conv u simp_thms)
qed

theorem C7_pass_before_user_witness:
  "request_pipe store_alice sample_options [''AUTHINFO PASS x'' @ CRLF]
     = (\<lparr>authinfo_user = Some [], authenticated = False\<rparr>, [''AUTHINFO PASS x'' @ CRLF])"
proof -
  have h1: "\<not> authenticated (RequestStream_init sample_options)"
    by (simp add: init_sample)
  have h3: "store_alice (htpasswd sample_options) (Some []) (Some (js ''x'')) = Inr False"
    by (simp add: store_alice_def js_def)
  show ?thesis
    using C7_pass_before_user [where validate = store_alice and options = sample_options,
            OF h1 token_alice(3) h3]
    unfolding init_sample by simp
qed

text \<open>
  C7 as stated fails for a store that validates the empty user name with the password
  x: the first line of the session, AUTHINFO PASS x, is rewritten to the operator's
  password and authenticates the session.
\<close>

theorem C7_store_with_empty_name_counterexample:
  "request_pipe store_empty_name sample_options [''AUTHINFO PASS x'' @ CRLF]
     = (\<lparr>authinfo_user = Some [], authenticated = True\<rparr>, [''AUTHINFO PASS hunter2'' @ CRLF])"
proof -
  have h1: "\<not> authenticated (RequestStream_init sample_options)"
    by (simp add: init_sample)
  have "RequestStream_transform store_empty_name sample_options (RequestStream_init sample_options)
          (''AUTHINFO PASS '' @ ''x'' @ CRLF)
        = Inr ((RequestStream_init sample_options)\<lparr>authenticated := True\<rparr>,
               ''AUTHINFO PASS '' @ encoder_encode (template (pass sample_options)) @ CRLF)"
    using transform_PASS_token [OF h1 token_alice(3) ascii_CRLF,
            where validate = store_empty_name and options = sample_options]
    by (simp add: store_empty_name_def init_sample)
  then have "pipe (RequestStream_transform store_empty_name sample_options)
               (RequestStream_init sample_options) [''AUTHINFO PASS '' @ ''x'' @ CRLF]
        = ((RequestStream_init sample_options)\<lparr>authenticated := True\<rparr>,
           [''AUTHINFO PASS '' @ encoder_encode (template (pass sample_options)) @ CRLF])"
    by (simp only: pipe.simps sum.case split_conv)
  then show ?thesis
    unfolding request_pipe_def encode_sample init_sample by simp
qed

text \<open>
  C8. \<^verbatim>\<open>pipe\<close> hands each chunk to the transform as the socket delivered it;
  nothing splits it into lines. A chunk of two status lines leaves as one line, the
  second line lost; a status line that arrives in two chunks is not normalized; a
  chunk with the AUTHINFO USER and the AUTHINFO PASS line of a client is forwarded as
  the rewritten AUTHINFO USER line alone, and the name recorded runs over the line
  end.
\<close>

theorem C8_chunks_reach_transform_unsplit:
  "response_pipe [''200 news.example.org ready'' @ CRLF @ ''381 more'' @ CRLF]
     = [''200 Service available, posting allowed'' @ CRLF]
   \<and> response_pipe [''20'', ''0 news.example.org ready'' @ CRLF]
     = [''20'', ''0 news.example.org ready'' @ CRLF]
   \<and> request_pipe store_alice sample_options
        [''AUTHINFO USER alice'' @ CRLF @ ''AUTHINFO PASS secret'' @ CRLF]
     = (\<lparr>authinfo_user = Some (js (''alice'' @ CRLF @ ''AUTHINFO'')), authenticated = False\<rparr>,
        [''AUTHINFO USER provider'' @ CRLF])"
proof -
  have a: "ResponseStream_transform (''200 news.example.org ready'' @ CRLF @ ''381 more'' @ CRLF)
      = ''200'' @ '' '' @ ''Service available, posting allowed'' @ CRLF"
    by (rule ResponseStream_transform_status) simp
  have b: "ResponseStream_transform ''20'' = ''20''"
    by (rule ResponseStream_transform_keep)
       (simp add: CRLF_def code_prefixes_def exponent_prefixes_def)
  have c: "ResponseStream_transform (''0 news.example.org ready'' @ CRLF) = ''0 news.example.org ready'' @ CRLF"
    by (rule ResponseStream_transform_keep)
       (simp add: CRLF_def code_prefixes_def exponent_prefixes_def)
  let ?chunk = "''AUTHINFO USER alice'' @ CRLF @ ''AUTHINFO PASS secret'' @ CRLF"
  have p: "parseCommand ?chunk = Some (js ''AUTHINFO USER'')"
    using parseCommand_AUTHINFO_USER [of "'' alice'' @ CRLF @ ''AUTHINFO PASS secret'' @ CRLF"] by simp
  have "ascii ?chunk" by (simp add: ascii_def CRLF_def)
  then have "decoder_decode ?chunk = js ?chunk" by (rule decoder_decode_ascii)
  then have l: "line_arg ?chunk = Some (js (''alice'' @ CRLF @ ''AUTHINFO''))"
    unfolding line_arg_def by (simp add: js_def CRLF_def trim_def is_js_whitespace_def at_index_def)
  have n: "\<not> authenticated (RequestStream_init sample_options)" by (simp add: init_sample)
  have d: "RequestStream_transform store_alice sample_options (RequestStream_init sample_options) ?chunk
      = Inr ((RequestStream_init sample_options)\<lparr>authinfo_user := Some (js (''alice'' @ CRLF @ ''AUTHINFO''))\<rparr>,
             ''AUTHINFO USER '' @ ''provider'' @ CRLF)"
    using transform_user [OF n p, of store_alice sample_options] unfolding l encode_sample .
  have "request_pipe store_alice sample_options [?chunk]
     = ((RequestStream_init sample_options)\<lparr>authinfo_user := Some (js (''alice'' @ CRLF @ ''AUTHINFO''))\<rparr>,
        [''AUTHINFO USER '' @ ''provider'' @ CRLF])"
    unfolding request_pipe_def by (simp only: pipe.simps d sum.case split_conv)
  then have r: "request_pipe store_alice sample_options [?chunk]
     = (\<lparr>authinfo_user = Some (js (''alice'' @ CRLF @ ''AUTHINFO'')), authenticated = False\<rparr>,
        [''AUTHINFO USER provider'' @ CRLF])"
    unfolding init_sample by simp
  have "response_pipe [''200 news.example.org ready'' @ CRLF @ ''381 more'' @ CRLF]
     = [''200 Service available, posting allowed'' @ CRLF]"
    unfolding response_pipe_map by (simp only: list.map a) simp
  moreover have "response_pipe [''20'', ''0 news.example.org ready'' @ CRLF]
     = [''20'', ''0 news.example.org ready'' @ CRLF]"
    unfolding response_pipe_map by (simp only: list.map b c)
  ultimately show ?thesis using r by (simp only: simp_thms)
qed

text \<open>
  C9 (amended). The response stream treats every line alike, wherever it stands in a
  response: the output for a list of lines is the transform of each line. A line
  whose first three bytes are the digits of a code of the table is replaced by the
  code, a space, the text of the code and CRLF, also when it is a line of a
  multi-line payload; a line whose first three bytes are neither the digits of a
  code of the table nor one of \<open>2e2\<close>, \<open>2E2\<close>, \<open>4e2\<close>, \<open>4E2\<close>
  is relayed byte for byte.
\<close>

theorem C9_stateless_line_by_line:
  "response_pipe lines = map ResponseStream_transform lines
   \<and> (\<forall>line\<in>set lines.
         (take 3 line \<notin> decimal3 ` fst ` set ResponseCodes \<union> exponent_prefixes
            \<longrightarrow> ResponseStream_transform line = line)
       \<and> (\<forall>(code, text)\<in>set ResponseCodes.
            take 3 line = decimal3 code
            \<longrightarrow> ResponseStream_transform line = decimal3 code @ '' '' @ text @ CRLF))"
proof -
  have keep: "ResponseStream_transform line = line"
    if "take 3 line \<notin> decimal3 ` fst ` set ResponseCodes \<union> exponent_prefixes" for line
    using that unfolding decimal3_table by (rule ResponseStream_transform_keep)
  show ?thesis
    using response_pipe_map keep ResponseStream_transform_code by blast
qed

theorem C9_stateless_line_by_line_witness:
  "response_pipe [''222 0 <a@b> body'' @ CRLF, ''Hello, 200 readers.'' @ CRLF, ''.'' @ CRLF]
     = [''222 0 <a@b> body'' @ CRLF, ''Hello, 200 readers.'' @ CRLF, ''.'' @ CRLF]
   \<and> ResponseStream_transform (''481 no'' @ CRLF) = ''481 Authentication failed/rejected'' @ CRLF"
proof -
  let ?lines = "[''222 0 <a@b> body'' @ CRLF, ''Hello, 200 readers.'' @ CRLF, ''.'' @ CRLF]"
  have t: "take 3 (''222 0 <a@b> body'' @ CRLF) = ''222''"
    "take 3 (''Hello, 200 readers.'' @ CRLF) = ''Hel''"
    "take 3 (''.'' @ CRLF) = ''.'' @ CRLF"
    "take 3 (''481 no'' @ CRLF) = decimal3 481"
    by (simp_all add: CRLF_def decimal3_values)
  have n: "''222'' \<notin> decimal3 ` fst ` set ResponseCodes \<union> exponent_prefixes"
    "''Hel'' \<notin> decimal3 ` fst ` set ResponseCodes \<union> exponent_prefixes"
    "''.'' @ CRLF \<notin> decimal3 ` fst ` set ResponseCodes \<union> exponent_prefixes"
    unfolding decimal3_table code_prefixes_def exponent_prefixes_def by (simp_all add: CRLF_def)
  have m: "(481, ''Authentication failed/rejected'') \<in> set ResponseCodes"
    by (simp add: ResponseCodes_mem)
  have "map ResponseStream_transform ?lines = ?lines"
    using C9_stateless_line_by_line [of ?lines] t(1-3) n
    by (simp only: list.map list.set insert_iff ball_simps simp_thms)
  moreover have "ResponseStream_transform (''481 no'' @ CRLF)
      = decimal3 481 @ '' '' @ ''Authentication failed/rejected'' @ CRLF"
    using C9_stateless_line_by_line [of "[''481 no'' @ CRLF]"] t(4) m by fastforce
  ultimately show ?thesis
    using C9_stateless_line_by_line [of ?lines] by (simp add: decimal3_values)
qed

text \<open>
  C9 as stated fails for a payload line that begins with a code of the table: the
  second line of this article body is replaced by the text of code 200.
\<close>

theorem C9_payload_line_rewritten_counterexample:
  "response_pipe [''222 0 <a@b> body'' @ CRLF, ''200 years ago today'' @ CRLF, ''.'' @ CRLF]
     = [''222 0 <a@b> body'' @ CRLF, ''200 Service available, posting allowed'' @ CRLF, ''.'' @ CRLF]"
proof -
  have a: "ResponseStream_transform (''222 0 <a@b> body'' @ CRLF) = ''222 0 <a@b> body'' @ CRLF"
    by (rule ResponseStream_transform_keep)
       (simp add: CRLF_def code_prefixes_def exponent_prefixes_def)
  have b: "ResponseStream_transform (''200 years ago today'' @ CRLF)
      = ''200'' @ '' '' @ ''Service available, posting allowed'' @ CRLF"
    by (rule ResponseStream_transform_status) simp
  have c: "ResponseStream_transform (''.'' @ CRLF) = ''.'' @ CRLF"
    by (rule ResponseStream_transform_keep)
       (simp add: CRLF_def code_prefixes_def exponent_prefixes_def)
  show ?thesis
    unfolding response_pipe_map by (simp only: list.map a b c) simp
qed

text \<open>
  C10. The name recorded from an AUTHINFO USER line and the password given to the
  store from an AUTHINFO PASS line are the third word of the line only: what follows
  a further space is not recorded and not validated, yet when validation fails the
  whole line, with those bytes, is forwarded.
\<close>

theorem C10_argument_is_third_word:
  assumes "\<not> authenticated a" and "token tok" and "ascii rest"
  shows "RequestStream_transform validate options a (''AUTHINFO USER '' @ tok @ '' '' @ rest @ CRLF)
          = Inr (a\<lparr>authinfo_user := Some (js tok)\<rparr>,
                 ''AUTHINFO USER '' @ encoder_encode (template (user options)) @ CRLF)
       \<and> RequestStream_transform validate options a (''AUTHINFO PASS '' @ tok @ '' '' @ rest @ CRLF)
          = (case validate (htpasswd options) (authinfo_user a) (Some (js tok)) of
               Inl e \<Rightarrow> Inl e
             | Inr ok \<Rightarrow>
                 if ok
                 then Inr (a\<lparr>authenticated := True\<rparr>,
                           ''AUTHINFO PASS '' @ encoder_encode (template (pass options)) @ CRLF)
                 else Inr (a, ''AUTHINFO PASS '' @ tok @ '' '' @ rest @ CRLF))"
proof -
  have t: "ascii ('' '' @ rest @ CRLF)"
    using assms(3) by (simp add: ascii_def CRLF_def)
  have s: "'' '' @ rest @ CRLF = CRLF \<or> (\<exists>r. '' '' @ rest @ CRLF = CHR '' '' # r)"
    by simp
  show ?thesis
    using transform_USER_token [OF assms(1,2) t s, where validate = validate and options = options]
      transform_PASS_token [OF assms(1,2) t s, where validate = validate and options = options]
    by simp
qed

theorem C10_argument_is_third_word_witness:
  "RequestStream_transform store_alice sample_options
      \<lparr>authinfo_user = Some (js ''alice''), authenticated = False\<rparr>
      (''AUTHINFO PASS secret and more'' @ CRLF)
    = Inr (\<lparr>authinfo_user = Some (js ''alice''), authenticated = True\<rparr>,
           ''AUTHINFO PASS hunter2'' @ CRLF)
   \<and> RequestStream_transform store_alice sample_options
      \<lparr>authinfo_user = Some (js ''alice''), authenticated = False\<rparr>
      (''AUTHINFO PASS wrong secret'' @ CRLF)
    = Inr (\<lparr>authinfo_user = Some (js ''alice''), authenticated = False\<rparr>,
           ''AUTHINFO PASS wrong secret'' @ CRLF)
   \<and> RequestStream_transform store_alice sample_options
      \<lparr>authinfo_user = Some [], authenticated = False\<rparr>
      (''AUTHINFO USER alice of wonderland'' @ CRLF)
    = Inr (\<lparr>authinfo_user = Some (js ''alice''), authenticated = False\<rparr>,
           ''AUTHINFO USER provider'' @ CRLF)"
proof -
  let ?a = "\<lparr>authinfo_user = Some (js ''alice''), authenticated = False\<rparr>"
  let ?b = "\<lparr>authinfo_user = Some [], authenticated = False\<rparr>"
  have na: "\<not> authenticated ?a" and nb: "\<not> authenticated ?b" by simp_all
  have r: "ascii ''and more''" "ascii ''secret''" "ascii ''of wonderland''"
    by (simp_all add: ascii_def)
  have w: "js ''wrong'' \<noteq> js ''secret''" by (simp add: js_def)
  show ?thesis
    using C10_argument_is_third_word [OF na token_alice(2) r(1),
            where validate = store_alice and options = sample_options]
      C10_argument_is_third_word [OF na token_alice(4) r(2),
            where validate = store_alice and options = sample_options]
      C10_argument_is_third_word [OF nb token_alice(1) r(3),
            where validate = store_alice and options = sample_options]
    unfolding encode_sample by (simp add: store_alice_def w)
qed

end
